theory Spec2Isabelle
  imports Main
begin

section \<open>Uniform/varying discovery and masking of one shader layer\<close>

text \<open>
  A shallow embedding of \<^verbatim>\<open>BackendLLVMWide::discoverVaryingAndMaskingOfLayer\<close>,
  \<^verbatim>\<open>IsShaderGlobalUniformByName\<close> and \<^verbatim>\<open>BackendLLVMWide::isSymbolUniform\<close>
  of \<^verbatim>\<open>src/liboslexec/backendllvm_wide.cpp\<close>.

  The C++ \<^verbatim>\<open>int\<close> values (block depths, mask ids, op indices) are modelled as
  unbounded \<open>int\<close>: every one of them is bounded by twice the number of ops of the layer
  plus one, so no wrap-around is reachable for an op vector that is itself indexed by
  \<^verbatim>\<open>int\<close>.
\<close>

subsection \<open>The IR view: symbols, opcodes, the shader instance\<close>

datatype SymType =
  SymTypeParam | SymTypeOutputParam | SymTypeLocal | SymTypeTemp | SymTypeGlobal | SymTypeConst

datatype ValueSource = DefaultVal | InstanceVal | GeomVal | ConnectedVal

text \<open>
  The tables of the analysis are keyed by \<^verbatim>\<open>const Symbol *\<close>. A symbol is modelled
  as the object the pointer refers to, with its address as first field, so that equality
  of records is equality of pointers. The other fields are the accessors the analysis
  calls on a symbol (the four \<open>is_...\<close> fields about the type are those of
  \<^verbatim>\<open>typespec()\<close>).
\<close>

record Symbol =
  sym_addr :: nat
  name :: string
  symtype :: SymType
  is_structure :: bool
  is_closure_based :: bool
  is_string_based :: bool
  is_closure :: bool
  is_constant :: bool
  has_init_ops :: bool
  valuesource :: ValueSource
  initbegin :: int
  initend :: int
  everread :: bool
  connected :: bool
  connected_down :: bool
  renderer_output :: bool
  lockgeom :: bool

text \<open>
  An op: its name, its arguments as \<^verbatim>\<open>opargsym\<close>, \<^verbatim>\<open>argread\<close> and
  \<^verbatim>\<open>argwrite\<close> give them, and its four jump targets (\<open>-1\<close> when unused).
\<close>

record Opcode =
  opname :: string
  opargs :: "(Symbol \<times> bool \<times> bool) list"
  jump0 :: int
  jump1 :: int
  jump2 :: int
  jump3 :: int

definition argsym :: "Symbol \<times> bool \<times> bool \<Rightarrow> Symbol" where
  "argsym a = fst a"

definition argread :: "Symbol \<times> bool \<times> bool \<Rightarrow> bool" where
  "argread a = fst (snd a)"

definition argwrite :: "Symbol \<times> bool \<times> bool \<Rightarrow> bool" where
  "argwrite a = snd (snd a)"

text \<open>
  Modelled from the spec: \<^verbatim>\<open>Opcode::farthest_jump\<close> is declared in
  \<^verbatim>\<open>oslexec_pvt.h\<close>, which is not among the sources. The spec: it "returns the
  largest valid target and bounds the op's structured extent" and "returns -1 for
  straight-line ops".
\<close>

definition farthest_jump :: "Opcode \<Rightarrow> int" where
  "farthest_jump opc = max (max (jump0 opc) (jump1 opc)) (max (jump2 opc) (jump3 opc))"

definition op_if :: string where "op_if = ''if''"
definition op_for :: string where "op_for = ''for''"
definition op_dowhile :: string where "op_dowhile = ''dowhile''"
definition op_while :: string where "op_while = ''while''"
definition op_functioncall :: string where "op_functioncall = ''functioncall''"
definition op_break :: string where "op_break = ''break''"
definition op_getattribute :: string where "op_getattribute = ''getattribute''"

text \<open>
  The shader instance of the layer (\<^verbatim>\<open>inst()\<close>), the layer's index, and the two
  options of the shading system that the analysis reads.
\<close>

record ShaderInstance =
  symbols :: "Symbol list"
  ops :: "Opcode list"
  firstparam :: nat
  lastparam :: nat
  maincodebegin :: int
  maincodeend :: int
  layer :: nat
  debug_uninit :: bool
  lazy_userdata :: bool

text \<open>
  Modelled from the spec: the macro \<^verbatim>\<open>FOREACH_PARAM\<close> is defined in
  \<^verbatim>\<open>oslexec_pvt.h\<close>, which is not among the sources. The spec's IR view has an
  "iteration over parameter symbols"; here they are the symbols from \<open>firstparam\<close> up
  to, not including, \<open>lastparam\<close>, in the order of the symbol table.
\<close>

definition params :: "ShaderInstance \<Rightarrow> Symbol list" where
  "params inst = take (lastparam inst - firstparam inst) (drop (firstparam inst) (symbols inst))"

subsection \<open>The state of the analysis\<close>

record UsageInfo =
  last_depth :: int
  last_maskId :: int
  potentially_unmasked_ops :: "(int \<times> int) list"

definition UsageInfo_new :: UsageInfo where
  "UsageInfo_new = \<lparr>last_depth = 0, last_maskId = 0, potentially_unmasked_ops = []\<rparr>"

text \<open>
  The failures of the source: each \<^verbatim>\<open>ASSERT\<close> is one constructor. Reading the op
  vector or the masking vector out of range is undefined behaviour in the source; the
  model stops there with \<open>OpIndexOutOfRange\<close>.
\<close>

datatype error =
    AssertLayerHasMaskingVector
  | AssertMaskingVectorEmpty
  | AssertPotentiallyUnmaskedOpsNotEmpty
  | AssertOneSymbolRead
  | AssertTopOfBlockDependsOn
  | AssertTopOfLoopControlFlow
  | AssertUnhandledJumpOp
  | AssertLoopControlFlowNotEmpty
  | AssertLoopConditionOnStack
  | AssertIsUniformNotEmpty
  | AssertMaskingVectorNotEmpty
  | OpIndexOutOfRange

text \<open>
  The two member tables the analysis fills (\<open>requires_masking\<close> is the vector of the
  current layer, \<^verbatim>\<open>m_requires_masking_by_layer_and_op_index[layer()]\<close>) and the locals
  of \<^verbatim>\<open>discoverVaryingAndMaskingOfLayer\<close> that its closures capture by reference.
  The multimap of feed-forward edges is the list of its (reader, writer) pairs in
  insertion order.
\<close>

record discovery =
  m_is_uniform_by_symbol :: "Symbol \<rightharpoonup> bool"
  requires_masking :: "bool list"
  symbolFeedForwardMap :: "(Symbol \<times> Symbol) list"
  usageInfoBySymbol :: "Symbol \<rightharpoonup> UsageInfo"
  symbolsCurrentBlockDependsOn :: "Symbol list"
  loopControlFlowSymbolStack :: "Symbol list"
  symbolsWrittenToByGetAttribute :: "Symbol list"
  nextMaskId :: int

subsection \<open>\<^verbatim>\<open>ensureWritesAtLowerDepthAreMasked\<close>\<close>

text \<open>
  The loop over \<^verbatim>\<open>info.potentially_unmasked_ops\<close>: a usage deeper than
  \<open>blockDepth\<close> sets the flag of its op, any other usage is pushed on
  \<^verbatim>\<open>remaining_ops\<close>.
\<close>

fun mark_deeper_usages ::
  "int \<Rightarrow> (int \<times> int) list \<Rightarrow> bool list \<Rightarrow> (int \<times> int) list
    \<Rightarrow> error + (bool list \<times> (int \<times> int) list)" where
  "mark_deeper_usages blockDepth [] masking remaining_ops = Inr (masking, remaining_ops)"
| "mark_deeper_usages blockDepth (usage # rest) masking remaining_ops =
     (if fst usage > blockDepth then
        (if 0 \<le> snd usage \<and> snd usage < int (length masking)
         then mark_deeper_usages blockDepth rest (masking[nat (snd usage) := True]) remaining_ops
         else Inl OpIndexOutOfRange)
      else mark_deeper_usages blockDepth rest masking (remaining_ops @ [usage]))"

definition ensureWritesAtLowerDepthAreMasked ::
  "Symbol \<Rightarrow> int \<Rightarrow> int \<Rightarrow> discovery \<Rightarrow> error + discovery" where
  "ensureWritesAtLowerDepthAreMasked symbolToCheck blockDepth maskId st =
     (case usageInfoBySymbol st symbolToCheck of
        None \<Rightarrow> Inr st
      | Some info \<Rightarrow>
          if last_depth info > blockDepth \<and> last_maskId info \<noteq> maskId then
            if potentially_unmasked_ops info = [] then Inl AssertPotentiallyUnmaskedOpsNotEmpty
            else
              (case mark_deeper_usages blockDepth (potentially_unmasked_ops info)
                      (requires_masking st) [] of
                 Inl e \<Rightarrow> Inl e
               | Inr (masking, remaining_ops) \<Rightarrow>
                   Inr (st\<lparr>requires_masking := masking,
                           usageInfoBySymbol := (usageInfoBySymbol st)(symbolToCheck \<mapsto>
                             info\<lparr>potentially_unmasked_ops := remaining_ops,
                                  last_depth := blockDepth\<rparr>)\<rparr>))
          else Inr st)"

subsection \<open>Sequencing of steps that can fail or run out of fuel\<close>

text \<open>
  A step of the analysis returns \<open>Inl e\<close> when an assertion of the source fails there. The
  recursive walk has a fuel argument (the IR may be malformed, and then the source's walk
  need not return): \<open>None\<close> is "out of fuel".
\<close>

definition bindE :: "error + 'a \<Rightarrow> ('a \<Rightarrow> error + 'b) \<Rightarrow> error + 'b" where
  "bindE r f = (case r of Inl e \<Rightarrow> Inl e | Inr x \<Rightarrow> f x)"

definition bindR ::
  "(error + 'a) option \<Rightarrow> ('a \<Rightarrow> (error + 'b) option) \<Rightarrow> (error + 'b) option" where
  "bindR r f = (case r of None \<Rightarrow> None | Some (Inl e) \<Rightarrow> Some (Inl e) | Some (Inr x) \<Rightarrow> f x)"

fun for_each :: "('a \<Rightarrow> 's \<Rightarrow> 's option) \<Rightarrow> 'a list \<Rightarrow> 's \<Rightarrow> 's option" where
  "for_each f [] s = Some s"
| "for_each f (x # xs) s = (case f x s of None \<Rightarrow> None | Some s' \<Rightarrow> for_each f xs s')"

fun for_eachE :: "('a \<Rightarrow> 's \<Rightarrow> error + 's) \<Rightarrow> 'a list \<Rightarrow> 's \<Rightarrow> error + 's" where
  "for_eachE f [] s = Inr s"
| "for_eachE f (x # xs) s = bindE (f x s) (for_eachE f xs)"

fun for_eachR ::
  "('a \<Rightarrow> 's \<Rightarrow> (error + 's) option) \<Rightarrow> 'a list \<Rightarrow> 's \<Rightarrow> (error + 's) option" where
  "for_eachR f [] s = Some (Inr s)"
| "for_eachR f (x # xs) s = bindR (f x s) (for_eachR f xs)"

subsection \<open>One op of \<^verbatim>\<open>discoverSymbolsBetween\<close>\<close>

definition op_at :: "ShaderInstance \<Rightarrow> int \<Rightarrow> error + Opcode" where
  "op_at inst opIndex =
     (if 0 \<le> opIndex \<and> opIndex < int (length (ops inst))
      then Inr (ops inst ! nat opIndex) else Inl OpIndexOutOfRange)"

definition symbolsReadByOp :: "Opcode \<Rightarrow> Symbol list" where
  "symbolsReadByOp opcode = map argsym (filter argread (opargs opcode))"

definition symbolsWrittenByOp :: "Opcode \<Rightarrow> Symbol list" where
  "symbolsWrittenByOp opcode = map argsym (filter argwrite (opargs opcode))"

text \<open>Every argument of the op is entered in the table as uniform.\<close>

definition discover_args :: "Opcode \<Rightarrow> discovery \<Rightarrow> discovery" where
  "discover_args opcode st =
     st\<lparr>m_is_uniform_by_symbol :=
          fold (\<lambda>a m. m(argsym a \<mapsto> True)) (opargs opcode) (m_is_uniform_by_symbol st)\<rparr>"

text \<open>The edges from one symbol to the symbols written, self dependencies skipped.\<close>

definition feeds_into :: "Symbol \<Rightarrow> Symbol list \<Rightarrow> (Symbol \<times> Symbol) list" where
  "feeds_into from ws = map (\<lambda>symbolWrittenTo. (from, symbolWrittenTo))
                          (filter (\<lambda>symbolWrittenTo. symbolWrittenTo \<noteq> from) ws)"

definition read_symbol :: "Symbol list \<Rightarrow> int \<Rightarrow> int \<Rightarrow> Symbol \<Rightarrow> discovery \<Rightarrow> error + discovery" where
  "read_symbol ws blockDepth maskId symbolReadFrom st =
     ensureWritesAtLowerDepthAreMasked symbolReadFrom blockDepth maskId
       (st\<lparr>symbolFeedForwardMap := symbolFeedForwardMap st @ feeds_into symbolReadFrom ws\<rparr>)"

definition usage_of :: "discovery \<Rightarrow> Symbol \<Rightarrow> UsageInfo" where
  "usage_of st s = (case usageInfoBySymbol st s of None \<Rightarrow> UsageInfo_new | Some info \<Rightarrow> info)"

definition write_symbol :: "int \<Rightarrow> int \<Rightarrow> int \<Rightarrow> Symbol \<Rightarrow> discovery \<Rightarrow> discovery" where
  "write_symbol writeBlockDepth writeMaskId opIndex symbolWrittenTo st =
     st\<lparr>usageInfoBySymbol := (usageInfoBySymbol st)(symbolWrittenTo \<mapsto>
          (usage_of st symbolWrittenTo)
            \<lparr>last_depth := writeBlockDepth, last_maskId := writeMaskId,
             potentially_unmasked_ops :=
               potentially_unmasked_ops (usage_of st symbolWrittenTo)
                 @ [(writeBlockDepth, opIndex)]\<rparr>)\<rparr>"

definition block_dependencies :: "Symbol list \<Rightarrow> discovery \<Rightarrow> discovery" where
  "block_dependencies ws st =
     st\<lparr>symbolFeedForwardMap := symbolFeedForwardMap st @
          concat (map (\<lambda>symbolCurrentBlockDependsOn. feeds_into symbolCurrentBlockDependsOn ws)
                      (symbolsCurrentBlockDependsOn st))\<rparr>"

text \<open>The part of the loop body before the test of \<^verbatim>\<open>opcode.jump(0)\<close>.\<close>

definition discover_op ::
  "Opcode \<Rightarrow> int \<Rightarrow> int \<Rightarrow> int \<Rightarrow> int \<Rightarrow> int \<Rightarrow> discovery \<Rightarrow> error + discovery" where
  "discover_op opcode opIndex blockDepth writeBlockDepth maskId writeMaskId st =
     bindE (for_eachE (read_symbol (symbolsWrittenByOp opcode) blockDepth maskId)
              (symbolsReadByOp opcode) (discover_args opcode st))
       (\<lambda>st. Inr (block_dependencies (symbolsWrittenByOp opcode)
                (fold (write_symbol writeBlockDepth writeMaskId opIndex)
                   (symbolsWrittenByOp opcode) st)))"

definition pushSymbolsCurentBlockDependsOn :: "Opcode \<Rightarrow> discovery \<Rightarrow> error + discovery" where
  "pushSymbolsCurentBlockDependsOn opcode st =
     (case symbolsReadByOp opcode of
        [c] \<Rightarrow> Inr (st\<lparr>symbolsCurrentBlockDependsOn := symbolsCurrentBlockDependsOn st @ [c]\<rparr>)
      | _ \<Rightarrow> Inl AssertOneSymbolRead)"

definition popSymbolsCurentBlockDependsOn :: "Opcode \<Rightarrow> discovery \<Rightarrow> error + discovery" where
  "popSymbolsCurentBlockDependsOn opcode st =
     (case symbolsReadByOp opcode of
        [c] \<Rightarrow>
          if symbolsCurrentBlockDependsOn st \<noteq> [] \<and> last (symbolsCurrentBlockDependsOn st) = c
          then Inr (st\<lparr>symbolsCurrentBlockDependsOn := butlast (symbolsCurrentBlockDependsOn st)\<rparr>)
          else Inl AssertTopOfBlockDependsOn
      | _ \<Rightarrow> Inl AssertOneSymbolRead)"

definition push_loopControlFlowSymbol :: "Opcode \<Rightarrow> discovery \<Rightarrow> error + discovery" where
  "push_loopControlFlowSymbol opcode st =
     (case symbolsReadByOp opcode of
        [c] \<Rightarrow> Inr (st\<lparr>loopControlFlowSymbolStack := loopControlFlowSymbolStack st @ [c]\<rparr>)
      | _ \<Rightarrow> Inl AssertOneSymbolRead)"

definition pop_loopControlFlowSymbol :: "Opcode \<Rightarrow> discovery \<Rightarrow> error + discovery" where
  "pop_loopControlFlowSymbol opcode st =
     (case symbolsReadByOp opcode of
        [] \<Rightarrow> Inl AssertTopOfLoopControlFlow
      | c # _ \<Rightarrow>
          if loopControlFlowSymbolStack st \<noteq> [] \<and> last (loopControlFlowSymbolStack st) = c
          then Inr (st\<lparr>loopControlFlowSymbolStack := butlast (loopControlFlowSymbolStack st)\<rparr>)
          else Inl AssertTopOfLoopControlFlow)"

text \<open>\<^verbatim>\<open>nextMaskId++\<close>: the value before the increment, and the state after it.\<close>

definition fresh_maskId :: "discovery \<Rightarrow> int \<times> discovery" where
  "fresh_maskId st = (nextMaskId st, st\<lparr>nextMaskId := nextMaskId st + 1\<rparr>)"

text \<open>
  The ensure call on \<^verbatim>\<open>opargsym (opcode, 0)\<close> after a loop's condition block. An op
  without arguments does not get here: one symbol read was asserted before.
\<close>

definition ensure_loop_condition :: "Opcode \<Rightarrow> int \<Rightarrow> int \<Rightarrow> discovery \<Rightarrow> error + discovery" where
  "ensure_loop_condition opcode blockDepth maskId st =
     (case opargs opcode of
        [] \<Rightarrow> Inl AssertOneSymbolRead
      | a # _ \<Rightarrow> ensureWritesAtLowerDepthAreMasked (argsym a) blockDepth maskId st)"

text \<open>
  The branch \<^verbatim>\<open>if (opcode.jump(0) >= 0)\<close>, with the recursive calls of
  \<^verbatim>\<open>discoverSymbolsBetween\<close> as the parameter \<open>walk\<close>.
\<close>

definition discover_if ::
  "(int \<Rightarrow> int \<Rightarrow> int \<Rightarrow> int \<Rightarrow> int \<Rightarrow> int \<Rightarrow> discovery \<Rightarrow> (error + discovery) option)
   \<Rightarrow> Opcode \<Rightarrow> int \<Rightarrow> int \<Rightarrow> discovery \<Rightarrow> (error + discovery) option" where
  "discover_if walk opcode opIndex blockDepth st =
     bindR (Some (pushSymbolsCurentBlockDependsOn opcode st)) (\<lambda>st.
     case fresh_maskId st of (thenMaskId, st) \<Rightarrow>
     bindR (walk (opIndex + 1) (jump0 opcode) (blockDepth + 1) (blockDepth + 1)
              thenMaskId thenMaskId st) (\<lambda>st.
     case fresh_maskId st of (elseMaskId, st) \<Rightarrow>
     bindR (walk (jump0 opcode) (jump1 opcode) (blockDepth + 1) (blockDepth + 1)
              elseMaskId elseMaskId st) (\<lambda>st.
     Some (popSymbolsCurentBlockDependsOn opcode st))))"

definition discover_loop ::
  "(int \<Rightarrow> int \<Rightarrow> int \<Rightarrow> int \<Rightarrow> int \<Rightarrow> int \<Rightarrow> discovery \<Rightarrow> (error + discovery) option)
   \<Rightarrow> Opcode \<Rightarrow> int \<Rightarrow> int \<Rightarrow> int \<Rightarrow> discovery \<Rightarrow> (error + discovery) option" where
  "discover_loop walk opcode opIndex blockDepth maskId st =
     bindR (walk (opIndex + 1) (jump0 opcode) blockDepth blockDepth maskId maskId st) (\<lambda>st.
     case fresh_maskId st of (maskIdForBodyAndStep, st) \<Rightarrow>
     bindR (Some (pushSymbolsCurentBlockDependsOn opcode st)) (\<lambda>st.
     bindR (Some (push_loopControlFlowSymbol opcode st)) (\<lambda>st.
     bindR (walk (jump1 opcode) (jump2 opcode) (blockDepth + 1) (blockDepth + 1)
              maskIdForBodyAndStep maskIdForBodyAndStep st) (\<lambda>st.
     bindR (walk (jump2 opcode) (jump3 opcode) (blockDepth + 1) (blockDepth + 1)
              maskIdForBodyAndStep maskIdForBodyAndStep st) (\<lambda>st.
     bindR (walk (jump0 opcode) (jump1 opcode) blockDepth (blockDepth + 1)
              maskId maskIdForBodyAndStep st) (\<lambda>st.
     bindR (Some (ensure_loop_condition opcode blockDepth maskId st)) (\<lambda>st.
     bindR (Some (popSymbolsCurentBlockDependsOn opcode st)) (\<lambda>st.
     Some (pop_loopControlFlowSymbol opcode st)))))))))"

definition discover_nested ::
  "(int \<Rightarrow> int \<Rightarrow> int \<Rightarrow> int \<Rightarrow> int \<Rightarrow> int \<Rightarrow> discovery \<Rightarrow> (error + discovery) option)
   \<Rightarrow> Opcode \<Rightarrow> int \<Rightarrow> int \<Rightarrow> int \<Rightarrow> int \<Rightarrow> int \<Rightarrow> discovery
   \<Rightarrow> (error + discovery) option" where
  "discover_nested walk opcode opIndex blockDepth writeBlockDepth maskId writeMaskId st =
     (if jump0 opcode \<ge> 0 then
        if opname opcode = op_if then discover_if walk opcode opIndex blockDepth st
        else if opname opcode = op_for \<or> opname opcode = op_while \<or> opname opcode = op_dowhile
        then discover_loop walk opcode opIndex blockDepth maskId st
        else if opname opcode = op_functioncall
        then walk (opIndex + 1) (jump0 opcode) blockDepth writeBlockDepth maskId writeMaskId st
        else Some (Inl AssertUnhandledJumpOp)
      else Some (Inr st))"

text \<open>
  The \<^verbatim>\<open>break\<close> branch. \<^verbatim>\<open>std::find\<close> stops at the first entry of
  \<^verbatim>\<open>symbolsCurrentBlockDependsOn\<close> equal to the loop condition; every entry after
  that one gets an edge to the loop condition.
\<close>

definition conditions_after :: "Symbol \<Rightarrow> Symbol list \<Rightarrow> Symbol list" where
  "conditions_after loopCondition deps = tl (dropWhile (\<lambda>c. c \<noteq> loopCondition) deps)"

definition discover_break :: "int \<Rightarrow> int \<Rightarrow> int \<Rightarrow> discovery \<Rightarrow> error + discovery" where
  "discover_break opIndex writeBlockDepth writeMaskId st =
     (if loopControlFlowSymbolStack st = [] then Inl AssertLoopControlFlowNotEmpty
      else
        let loopCondition = last (loopControlFlowSymbolStack st) in
        if loopCondition \<notin> set (symbolsCurrentBlockDependsOn st)
        then Inl AssertLoopConditionOnStack
        else
          let info = usage_of st loopCondition;
              info = (if writeBlockDepth > last_depth info
                      then info\<lparr>last_depth := writeBlockDepth, last_maskId := writeMaskId\<rparr>
                      else info)
          in Inr (st\<lparr>symbolFeedForwardMap := symbolFeedForwardMap st @
                        map (\<lambda>conditionBreakDependsOn. (conditionBreakDependsOn, loopCondition))
                          (conditions_after loopCondition (symbolsCurrentBlockDependsOn st)),
                     usageInfoBySymbol := (usageInfoBySymbol st)(loopCondition \<mapsto>
                        info\<lparr>potentially_unmasked_ops :=
                               potentially_unmasked_ops info @ [(writeBlockDepth, opIndex)]\<rparr>)\<rparr>))"

definition discover_getattribute :: "Opcode \<Rightarrow> discovery \<Rightarrow> discovery" where
  "discover_getattribute opcode st =
     st\<lparr>symbolsWrittenToByGetAttribute :=
          symbolsWrittenToByGetAttribute st @ symbolsWrittenByOp opcode\<rparr>"

text \<open>The part of the loop body after the nested blocks, up to the new op index.\<close>

definition discover_after ::
  "Opcode \<Rightarrow> int \<Rightarrow> int \<Rightarrow> int \<Rightarrow> discovery \<Rightarrow> error + discovery" where
  "discover_after opcode opIndex writeBlockDepth writeMaskId st =
     bindE (if opname opcode = op_break
            then discover_break opIndex writeBlockDepth writeMaskId st else Inr st)
       (\<lambda>st. Inr (if opname opcode = op_getattribute
                  then discover_getattribute opcode st else st))"

definition next_opIndex :: "Opcode \<Rightarrow> int \<Rightarrow> int" where
  "next_opIndex opcode opIndex =
     (if farthest_jump opcode \<ge> 0 then farthest_jump opcode else opIndex + 1)"

subsection \<open>\<^verbatim>\<open>discoverSymbolsBetween\<close>\<close>

text \<open>
  The walk over the ops from \<open>opIndex\<close> up to \<open>endop\<close>. Each op and each nested block
  takes one unit of fuel.
\<close>

primrec discoverSymbolsBetween ::
  "nat \<Rightarrow> ShaderInstance \<Rightarrow> int \<Rightarrow> int \<Rightarrow> int \<Rightarrow> int \<Rightarrow> int \<Rightarrow> int \<Rightarrow> discovery
   \<Rightarrow> (error + discovery) option" where
  "discoverSymbolsBetween 0 inst opIndex endop blockDepth writeBlockDepth maskId writeMaskId st
     = None"
| "discoverSymbolsBetween (Suc fuel) inst opIndex endop blockDepth writeBlockDepth maskId
     writeMaskId st =
     (if opIndex < endop then
        bindR (Some (op_at inst opIndex)) (\<lambda>opcode.
        bindR (Some (discover_op opcode opIndex blockDepth writeBlockDepth maskId writeMaskId st))
          (\<lambda>st.
        bindR (discover_nested (discoverSymbolsBetween fuel inst) opcode opIndex blockDepth
                 writeBlockDepth maskId writeMaskId st) (\<lambda>st.
        bindR (Some (discover_after opcode opIndex writeBlockDepth writeMaskId st)) (\<lambda>st.
        discoverSymbolsBetween fuel inst (next_opIndex opcode opIndex) endop blockDepth
          writeBlockDepth maskId writeMaskId st))))
      else Some (Inr st))"

subsection \<open>Seeding and propagation of varying\<close>

text \<open>
  The table of the shader globals: \<^verbatim>\<open>fields\<close> (here \<open>fields_sg\<close>) and
  \<^verbatim>\<open>field_is_uniform\<close>, entry by entry.
\<close>

definition fields_sg :: "string list" where
  "fields_sg = [''renderstate'', ''tracedata'', ''objdata'', ''shadingcontext'', ''renderer'',
     ''Ci'', ''raytype'', ''pad0'', ''pad1'', ''pad2'',
     ''P'', ''dPdz'', ''I'', ''N'', ''Ng'', ''u'', ''v'', ''dPdu'', ''dPdv'', ''time'',
     ''dtime'', ''dPdtime'', ''Ps'', ''object2common'', ''shader2common'', ''surfacearea'',
     ''flipHandedness'', ''backfacing'']"

definition field_is_uniform :: "bool list" where
  "field_is_uniform = [True, True, True, True, True, True, True, True, True, True,
     False, False, False, False, False, False, False, False, False, False,
     False, False, False, False, False, False, False, False]"

fun field_lookup :: "string \<Rightarrow> string list \<Rightarrow> bool list \<Rightarrow> bool" where
  "field_lookup n (f # fs) (u # us) = (if n = f then u else field_lookup n fs us)"
| "field_lookup n _ _ = False"

definition IsShaderGlobalUniformByName :: "string \<Rightarrow> bool" where
  "IsShaderGlobalUniformByName n = field_lookup n fields_sg field_is_uniform"

text \<open>
  \<^verbatim>\<open>recursivelyMarkNonUniform\<close>. \<^verbatim>\<open>m_is_uniform_by_symbol[s]\<close> on a symbol that
  is not in the table enters it as \<open>false\<close>. The fuel bounds the depth of the recursion.
\<close>

definition feeds_of :: "(Symbol \<times> Symbol) list \<Rightarrow> Symbol \<Rightarrow> Symbol list" where
  "feeds_of feedForward s = map snd (filter (\<lambda>e. fst e = s) feedForward)"

primrec recursivelyMarkNonUniform ::
  "nat \<Rightarrow> (Symbol \<times> Symbol) list \<Rightarrow> Symbol \<Rightarrow> (Symbol \<rightharpoonup> bool) \<Rightarrow> (Symbol \<rightharpoonup> bool) option"
  where
  "recursivelyMarkNonUniform 0 feedForward nonUniformSymbol tbl = None"
| "recursivelyMarkNonUniform (Suc fuel) feedForward nonUniformSymbol tbl =
     (let previously_was_uniform = (case tbl nonUniformSymbol of None \<Rightarrow> False | Some b \<Rightarrow> b);
          tbl = tbl(nonUniformSymbol \<mapsto> False)
      in if previously_was_uniform
         then for_each (recursivelyMarkNonUniform fuel feedForward)
                (feeds_of feedForward nonUniformSymbol) tbl
         else Some tbl)"

text \<open>
  The loop over the keys of the multimap computes \<open>is_uniform\<close> of each key; the keys are
  taken once each, here in the order of their first insertion (the source's order is the
  hash table's).
\<close>

definition feed_is_uniform :: "Symbol \<Rightarrow> bool" where
  "feed_is_uniform symbolReadFrom =
     (if symtype symbolReadFrom = SymTypeGlobal
      then IsShaderGlobalUniformByName (name symbolReadFrom)
      else if symtype symbolReadFrom = SymTypeParam then False
      else True)"

definition varying_feeds :: "(Symbol \<times> Symbol) list \<Rightarrow> Symbol list" where
  "varying_feeds feedForward =
     filter (\<lambda>s. \<not> feed_is_uniform s) (remdups (map fst feedForward))"

definition output_params :: "ShaderInstance \<Rightarrow> Symbol list" where
  "output_params inst = filter (\<lambda>s. symtype s = SymTypeOutputParam) (params inst)"

text \<open>The symbols handed to \<^verbatim>\<open>recursivelyMarkNonUniform\<close>, in the order of the calls.\<close>

definition marked_symbols :: "ShaderInstance \<Rightarrow> discovery \<Rightarrow> Symbol list" where
  "marked_symbols inst st =
     varying_feeds (symbolFeedForwardMap st) @ output_params inst
       @ symbolsWrittenToByGetAttribute st"

definition mark_varying :: "nat \<Rightarrow> ShaderInstance \<Rightarrow> discovery \<Rightarrow> (error + discovery) option" where
  "mark_varying fuel inst st =
     (case for_each (recursivelyMarkNonUniform fuel (symbolFeedForwardMap st))
             (marked_symbols inst st) (m_is_uniform_by_symbol st) of
        None \<Rightarrow> None
      | Some tbl \<Rightarrow> Some (Inr (st\<lparr>m_is_uniform_by_symbol := tbl\<rparr>)))"

subsection \<open>\<^verbatim>\<open>discoverVaryingAndMaskingOfLayer\<close>\<close>

text \<open>The three conditions under which the init ops of a symbol are walked.\<close>

definition symbol_init_ops_walked :: "ShaderInstance \<Rightarrow> Symbol \<Rightarrow> bool" where
  "symbol_init_ops_walked inst s =
     (symtype s \<noteq> SymTypeConst \<and> \<not> is_structure s \<and>
      (symtype s \<noteq> SymTypeParam \<and> symtype s \<noteq> SymTypeOutputParam \<and>
       symtype s \<noteq> SymTypeGlobal \<and>
       (is_constant s \<or> is_closure_based s \<or> is_string_based s \<or>
        ((symtype s = SymTypeLocal \<or> symtype s = SymTypeTemp) \<and> debug_uninit inst))) \<and>
      has_init_ops s \<and> valuesource s = DefaultVal)"

definition param_skipped :: "Symbol \<Rightarrow> bool" where
  "param_skipped s =
     (is_structure s \<or>
      (\<not> everread s \<and> \<not> connected_down s \<and> \<not> connected s \<and> \<not> renderer_output s))"

definition param_init_ops_walked :: "ShaderInstance \<Rightarrow> Symbol \<Rightarrow> bool" where
  "param_init_ops_walked inst s =
     (\<not> param_skipped s \<and>
      \<not> (symtype s = SymTypeParam \<and> \<not> lockgeom s \<and> \<not> is_closure s \<and> \<not> connected s \<and>
         \<not> connected_down s \<and> lazy_userdata inst) \<and>
      has_init_ops s \<and> valuesource s = DefaultVal)"

definition walk_init_ops ::
  "nat \<Rightarrow> ShaderInstance \<Rightarrow> int \<Rightarrow> Symbol \<Rightarrow> discovery \<Rightarrow> (error + discovery) option" where
  "walk_init_ops fuel inst mainMask s st =
     discoverSymbolsBetween fuel inst (initbegin s) (initend s) 0 0 mainMask mainMask st"

definition ensure_output_param :: "int \<Rightarrow> Symbol \<Rightarrow> discovery \<Rightarrow> error + discovery" where
  "ensure_output_param mainMask s st =
     (if \<not> param_skipped s \<and> symtype s = SymTypeOutputParam
      then ensureWritesAtLowerDepthAreMasked s 0 mainMask st else Inr st)"

text \<open>
  The body of \<^verbatim>\<open>discoverVaryingAndMaskingOfLayer\<close> after the masking vector of the
  layer was resized: the three walks, the pass over the output parameters, the marking.
\<close>

definition discover_layer :: "nat \<Rightarrow> ShaderInstance \<Rightarrow> discovery \<Rightarrow> (error + discovery) option" where
  "discover_layer fuel inst st =
     (case fresh_maskId st of (mainMask, st) \<Rightarrow>
      bindR (for_eachR (walk_init_ops fuel inst mainMask)
               (filter (symbol_init_ops_walked inst) (symbols inst)) st) (\<lambda>st.
      bindR (for_eachR (walk_init_ops fuel inst mainMask)
               (filter (param_init_ops_walked inst) (params inst)) st) (\<lambda>st.
      bindR (discoverSymbolsBetween fuel inst (maincodebegin inst) (maincodeend inst)
               0 0 mainMask mainMask st) (\<lambda>st.
      bindR (Some (for_eachE (ensure_output_param mainMask) (params inst) st)) (\<lambda>st.
      mark_varying fuel inst st)))))"

text \<open>The two member tables of the backend.\<close>

record BackendLLVMWide =
  is_uniform_by_symbol :: "Symbol \<rightharpoonup> bool"
  requires_masking_by_layer_and_op_index :: "bool list list"

definition discovery_new :: "(Symbol \<rightharpoonup> bool) \<Rightarrow> nat \<Rightarrow> discovery" where
  "discovery_new tbl nops =
     \<lparr>m_is_uniform_by_symbol = tbl, requires_masking = replicate nops False,
      symbolFeedForwardMap = [], usageInfoBySymbol = Map.empty,
      symbolsCurrentBlockDependsOn = [], loopControlFlowSymbolStack = [],
      symbolsWrittenToByGetAttribute = [], nextMaskId = 0\<rparr>"

definition discoverVaryingAndMaskingOfLayer ::
  "nat \<Rightarrow> ShaderInstance \<Rightarrow> BackendLLVMWide \<Rightarrow> (error + BackendLLVMWide) option" where
  "discoverVaryingAndMaskingOfLayer fuel inst be =
     (if \<not> length (requires_masking_by_layer_and_op_index be) > layer inst
      then Some (Inl AssertLayerHasMaskingVector)
      else if requires_masking_by_layer_and_op_index be ! layer inst \<noteq> []
      then Some (Inl AssertMaskingVectorEmpty)
      else
        bindR (discover_layer fuel inst
                 (discovery_new (is_uniform_by_symbol be) (length (ops inst)))) (\<lambda>st.
        Some (Inr \<lparr>is_uniform_by_symbol = m_is_uniform_by_symbol st,
                   requires_masking_by_layer_and_op_index =
                     (requires_masking_by_layer_and_op_index be)
                       [layer inst := requires_masking st]\<rparr>)))"

subsection \<open>\<^verbatim>\<open>isSymbolUniform\<close>\<close>

definition isSymbolUniform :: "BackendLLVMWide \<Rightarrow> Symbol \<Rightarrow> error + bool" where
  "isSymbolUniform be s =
     (if is_uniform_by_symbol be = Map.empty then Inl AssertIsUniformNotEmpty
      else case is_uniform_by_symbol be s of
             None \<Rightarrow> Inr (symtype s \<noteq> SymTypeOutputParam)
           | Some is_uniform \<Rightarrow> Inr is_uniform)"

subsection \<open>Symbols and states of the examples\<close>

definition mk_symbol :: "nat \<Rightarrow> string \<Rightarrow> SymType \<Rightarrow> Symbol" where
  "mk_symbol a n t =
     \<lparr>sym_addr = a, name = n, symtype = t, is_structure = False, is_closure_based = False,
      is_string_based = False, is_closure = False, is_constant = False, has_init_ops = False,
      valuesource = DefaultVal, initbegin = 0, initend = 0, everread = True,
      connected = False, connected_down = False, renderer_output = False, lockgeom = True\<rparr>"

definition rd :: "Symbol \<Rightarrow> Symbol \<times> bool \<times> bool" where
  "rd s = (s, True, False)"

definition wr :: "Symbol \<Rightarrow> Symbol \<times> bool \<times> bool" where
  "wr s = (s, False, True)"

definition mk_op :: "string \<Rightarrow> (Symbol \<times> bool \<times> bool) list \<Rightarrow> Opcode" where
  "mk_op n as = \<lparr>opname = n, opargs = as, jump0 = -1, jump1 = -1, jump2 = -1, jump3 = -1\<rparr>"

text \<open>A layer without parameters whose main code is all of its ops.\<close>

definition mk_inst :: "Symbol list \<Rightarrow> Opcode list \<Rightarrow> ShaderInstance" where
  "mk_inst ss os =
     \<lparr>symbols = ss, ops = os, firstparam = 0, lastparam = 0, maincodebegin = 0,
      maincodeend = int (length os), layer = 0, debug_uninit = False, lazy_userdata = False\<rparr>"

definition backend_new :: BackendLLVMWide where
  "backend_new = \<lparr>is_uniform_by_symbol = Map.empty,
                  requires_masking_by_layer_and_op_index = [[]]\<rparr>"

definition failure_of :: "(error + 'a) option \<Rightarrow> error option" where
  "failure_of r = (case r of Some (Inl e) \<Rightarrow> Some e | _ \<Rightarrow> None)"

text \<open>
  The state after \<^verbatim>\<open>assign x 1\<close> as op 0 at depth 0 under mask 0, and the state
  after op 1 wrote \<open>x\<close> at depth 1 under mask 1 and op 2 wrote it at depth 2 under mask 2.
\<close>

definition sym_x :: Symbol where
  "sym_x = mk_symbol 1 ''x'' SymTypeLocal"

definition state_written_at_top :: discovery where
  "state_written_at_top = (discovery_new Map.empty 1)\<lparr>usageInfoBySymbol :=
     [sym_x \<mapsto> \<lparr>last_depth = 0, last_maskId = 0, potentially_unmasked_ops = [(0, 0)]\<rparr>]\<rparr>"

definition usage_nested :: UsageInfo where
  "usage_nested = \<lparr>last_depth = 2, last_maskId = 2, potentially_unmasked_ops = [(1, 1), (2, 2)]\<rparr>"

definition state_written_nested :: discovery where
  "state_written_nested = (discovery_new Map.empty 3)\<lparr>usageInfoBySymbol := [sym_x \<mapsto> usage_nested]\<rparr>"

subsection \<open>The spec's varying symbols\<close>

text \<open>
  These two definitions follow the words of the spec, for the comparison with the table the
  code computes: a varying seed is a global whose name is not one of the uniform names, a
  parameter marked \<open>connected\<close>, an \<open>OutputParam\<close>, or a symbol written by a
  \<^verbatim>\<open>getattribute\<close> op; a symbol is varying when a path of the feed-forward graph
  leads from a varying seed to it, or when it is a varying seed itself.
\<close>

definition spec_varying_seed :: "discovery \<Rightarrow> Symbol \<Rightarrow> bool" where
  "spec_varying_seed st s \<longleftrightarrow>
     (symtype s = SymTypeGlobal \<and> \<not> IsShaderGlobalUniformByName (name s)) \<or>
     ((symtype s = SymTypeParam \<or> symtype s = SymTypeOutputParam) \<and> connected s) \<or>
     symtype s = SymTypeOutputParam \<or>
     s \<in> set (symbolsWrittenToByGetAttribute st)"

definition spec_is_varying :: "discovery \<Rightarrow> Symbol \<Rightarrow> bool" where
  "spec_is_varying st s \<longleftrightarrow>
     (\<exists>seed. spec_varying_seed st seed \<and> (seed, s) \<in> (set (symbolFeedForwardMap st))\<^sup>*)"

subsection \<open>Predicates of the proofs\<close>

text \<open>
  What one call of \<^verbatim>\<open>recursivelyMarkNonUniform\<close> does to the table, for the edges
  \<open>E\<close>: it only sets entries to \<open>false\<close>, every entry it sets is reached from the symbol
  of the call, that symbol is set, and an edge whose reader it sets has its writer set.
\<close>

definition mark_ok ::
  "(Symbol \<times> Symbol) list \<Rightarrow> (Symbol \<Rightarrow> (Symbol \<rightharpoonup> bool) \<Rightarrow> (Symbol \<rightharpoonup> bool) option) \<Rightarrow> bool" where
  "mark_ok E f \<longleftrightarrow> (\<forall>s t t'. f s t = Some t' \<longrightarrow>
      (\<forall>x. t' x = t x \<or> t' x = Some False) \<and>
      (\<forall>x. t' x = Some False \<longrightarrow> t x = Some False \<or> (s, x) \<in> (set E)\<^sup>*) \<and>
      t' s = Some False \<and>
      ((\<forall>e \<in> set E. t (fst e) \<noteq> None) \<longrightarrow>
         (\<forall>e \<in> set E. t' (fst e) = Some False \<and> t (fst e) \<noteq> Some False \<longrightarrow> t' (snd e) = Some False)))"

text \<open>
  The state during the walk: no symbol is varying yet, and the reader of every edge and every
  condition on the stack is in the table. \<open>extends st st'\<close>: the table of \<open>st'\<close> has the
  symbols of \<open>st\<close>, the masking vector has kept its length, and \<open>st'\<close> is such a state
  when \<open>st\<close> is one.
\<close>

definition discovered_sound :: "discovery \<Rightarrow> bool" where
  "discovered_sound st \<longleftrightarrow>
     (\<forall>x. m_is_uniform_by_symbol st x \<noteq> Some False) \<and>
     (\<forall>e \<in> set (symbolFeedForwardMap st). m_is_uniform_by_symbol st (fst e) \<noteq> None) \<and>
     (\<forall>c \<in> set (symbolsCurrentBlockDependsOn st). m_is_uniform_by_symbol st c \<noteq> None)"

definition extends :: "discovery \<Rightarrow> discovery \<Rightarrow> bool" where
  "extends st st' \<longleftrightarrow>
     (\<forall>x. m_is_uniform_by_symbol st x \<noteq> None \<longrightarrow> m_is_uniform_by_symbol st' x \<noteq> None) \<and>
     length (requires_masking st') = length (requires_masking st) \<and>
     (discovered_sound st \<longrightarrow> discovered_sound st')"

definition walk_extends ::
  "(int \<Rightarrow> int \<Rightarrow> int \<Rightarrow> int \<Rightarrow> int \<Rightarrow> int \<Rightarrow> discovery \<Rightarrow> (error + discovery) option) \<Rightarrow> bool"
  where
  "walk_extends walk \<longleftrightarrow>
     (\<forall>b e d wd m wm st st'. walk b e d wd m wm st = Some (Inr st') \<longrightarrow> extends st st')"

subsection \<open>Layers of the examples\<close>

definition sym_c :: Symbol where
  "sym_c = mk_symbol 2 ''c'' SymTypeLocal"

definition sym_d :: Symbol where
  "sym_d = mk_symbol 3 ''d'' SymTypeLocal"

definition sym_y :: Symbol where
  "sym_y = mk_symbol 4 ''y'' SymTypeLocal"

definition sym_z :: Symbol where
  "sym_z = mk_symbol 5 ''z'' SymTypeLocal"

definition sym_k :: Symbol where
  "sym_k = mk_symbol 6 ''k'' SymTypeConst"

text \<open>A parameter that is not connected, the varying global \<open>P\<close>, the uniform global
  \<open>raytype\<close>, an output parameter.\<close>

definition sym_p :: Symbol where
  "sym_p = mk_symbol 7 ''p'' SymTypeParam"

definition sym_P :: Symbol where
  "sym_P = mk_symbol 8 ''P'' SymTypeGlobal"

definition sym_out :: Symbol where
  "sym_out = mk_symbol 9 ''out'' SymTypeOutputParam"

definition sym_raytype :: Symbol where
  "sym_raytype = mk_symbol 10 ''raytype'' SymTypeGlobal"

text \<open>\<^verbatim>\<open>if (c) { if (d) { x = k; } y = x; } z = x;\<close>\<close>

definition layer_nested_ifs :: ShaderInstance where
  "layer_nested_ifs = mk_inst [sym_x, sym_c, sym_d, sym_y, sym_z, sym_k]
     [(mk_op ''if'' [rd sym_c])\<lparr>jump0 := 4, jump1 := 4\<rparr>,
      (mk_op ''if'' [rd sym_d])\<lparr>jump0 := 3, jump1 := 3\<rparr>,
      mk_op ''assign'' [wr sym_x, rd sym_k],
      mk_op ''assign'' [wr sym_y, rd sym_x],
      mk_op ''assign'' [wr sym_z, rd sym_x]]"

text \<open>\<^verbatim>\<open>c = k; if (c) { if (p) { while (c) { break; } } }\<close>\<close>

definition layer_break :: ShaderInstance where
  "layer_break = mk_inst [sym_c, sym_p, sym_k]
     [mk_op ''assign'' [wr sym_c, rd sym_k],
      (mk_op ''if'' [rd sym_c])\<lparr>jump0 := 5, jump1 := 5\<rparr>,
      (mk_op ''if'' [rd sym_p])\<lparr>jump0 := 5, jump1 := 5\<rparr>,
      (mk_op ''while'' [rd sym_c])\<lparr>jump0 := 4, jump1 := 4, jump2 := 5, jump3 := 5\<rparr>,
      mk_op ''break'' []]"

text \<open>\<^verbatim>\<open>x = p; printf (P);\<close>\<close>

definition layer_param :: ShaderInstance where
  "layer_param = mk_inst [sym_x, sym_p, sym_P]
     [mk_op ''assign'' [wr sym_x, rd sym_p],
      mk_op ''printf'' [rd sym_P]]"

text \<open>\<^verbatim>\<open>y = p + k;\<close>\<close>

definition layer_add :: ShaderInstance where
  "layer_add = mk_inst [sym_y, sym_p, sym_k] [mk_op ''add'' [wr sym_y, rd sym_p, rd sym_k]]"

text \<open>\<^verbatim>\<open>x = k;\<close>\<close>

definition layer_assign :: ShaderInstance where
  "layer_assign = mk_inst [sym_x, sym_k] [mk_op ''assign'' [wr sym_x, rd sym_k]]"

text \<open>\<^verbatim>\<open>P = x; y = k;\<close> and \<^verbatim>\<open>x = P; y = raytype;\<close>\<close>

definition layer_write_global :: ShaderInstance where
  "layer_write_global = mk_inst [sym_x, sym_y, sym_k, sym_P]
     [mk_op ''assign'' [wr sym_P, rd sym_x],
      mk_op ''assign'' [wr sym_y, rd sym_k]]"

definition layer_read_globals :: ShaderInstance where
  "layer_read_globals = mk_inst [sym_x, sym_y, sym_P, sym_raytype]
     [mk_op ''assign'' [wr sym_x, rd sym_P],
      mk_op ''assign'' [wr sym_y, rd sym_raytype]]"

text \<open>Two layers without ops: one declares an output parameter, the other one a local.\<close>

definition layer_only_output :: ShaderInstance where
  "layer_only_output = (mk_inst [sym_out] [])\<lparr>lastparam := 1\<rparr>"

definition layer_no_ops :: ShaderInstance where
  "layer_no_ops = mk_inst [sym_x] []"

definition backend_x_uniform :: BackendLLVMWide where
  "backend_x_uniform = \<lparr>is_uniform_by_symbol = [sym_x \<mapsto> True],
                        requires_masking_by_layer_and_op_index = [[False]]\<rparr>"

section \<open>Properties\<close>

subsection \<open>The mask planner\<close>

lemma mark_deeper_usages_Inr:
  "\<forall>u \<in> set us. 0 \<le> snd u \<and> snd u < int (length masking) \<Longrightarrow>
   \<exists>masking'. mark_deeper_usages d us masking acc =
       Inr (masking', acc @ filter (\<lambda>u. \<not> fst u > d) us) \<and>
     length masking' = length masking \<and>
     (\<forall>i < length masking.
        masking' ! i = (masking ! i \<or> (\<exists>u \<in> set us. fst u > d \<and> snd u = int i)))"
proof (induction us arbitrary: masking acc)
  case Nil
  then show ?case by simp
next
  case (Cons u us)
  show ?case
  proof (cases "fst u > d")
    case True
    let ?m = "masking[nat (snd u) := True]"
    from Cons.prems have rng: "0 \<le> snd u" "snd u < int (length masking)" by auto
    from Cons.prems have "\<forall>v \<in> set us. 0 \<le> snd v \<and> snd v < int (length ?m)" by simp
    from Cons.IH [OF this, of acc] obtain masking' where
      run: "mark_deeper_usages d us ?m acc = Inr (masking', acc @ filter (\<lambda>u. \<not> fst u > d) us)"
      and len: "length masking' = length ?m"
      and flags: "\<forall>i < length ?m.
        masking' ! i = (?m ! i \<or> (\<exists>v \<in> set us. fst v > d \<and> snd v = int i))"
      by blast
    have "\<forall>i < length masking.
        masking' ! i = (masking ! i \<or> (\<exists>v \<in> set (u # us). fst v > d \<and> snd v = int i))"
    proof (intro allI impI)
      fix i assume i: "i < length masking"
      show "masking' ! i = (masking ! i \<or> (\<exists>v \<in> set (u # us). fst v > d \<and> snd v = int i))"
      proof (cases "i = nat (snd u)")
        case True
        with rng have su: "snd u = int i" by simp
        from i True have "?m ! i" by simp
        with flags i have "masking' ! i" by simp
        moreover from su \<open>fst u > d\<close> have "\<exists>v \<in> set (u # us). fst v > d \<and> snd v = int i"
          by auto
        ultimately show ?thesis by simp
      next
        case False
        with rng have su: "snd u \<noteq> int i" by auto
        from i False have "?m ! i = masking ! i" by simp
        with flags i have "masking' ! i = (masking ! i \<or> (\<exists>v \<in> set us. fst v > d \<and> snd v = int i))"
          by simp
        with su show ?thesis by auto
      qed
    qed
    with run len True rng show ?thesis by simp
  next
    case False
    from Cons.prems have "\<forall>v \<in> set us. 0 \<le> snd v \<and> snd v < int (length masking)" by simp
    from Cons.IH [OF this, of "acc @ [u]"] False show ?thesis by auto
  qed
qed

text \<open>
  C2. On a symbol with usage info whose \<open>last_depth\<close> is greater than the current depth
  and whose \<open>last_maskId\<close> differs from the current mask id, the call sets the flag of
  exactly the pending writes deeper than the current depth (every other flag keeps its
  value, the vector keeps its length), and leaves exactly the pending writes at the
  current depth or above it pending, in their order. (The op indices of the pending writes
  are indices of the masking vector. With no pending write at all there is nothing to
  mark, and the call stops at its assertion before it changes anything.)
\<close>

theorem ensure_marks_exactly_deeper_writes:
  assumes "usageInfoBySymbol st symbol = Some info"
    and "last_depth info > current_depth"
    and "last_maskId info \<noteq> current_mask_id"
    and "\<forall>u \<in> set (potentially_unmasked_ops info).
           0 \<le> snd u \<and> snd u < int (length (requires_masking st))"
  shows "if potentially_unmasked_ops info = []
         then ensureWritesAtLowerDepthAreMasked symbol current_depth current_mask_id st
                = Inl AssertPotentiallyUnmaskedOpsNotEmpty
         else (\<exists>st' info'.
           ensureWritesAtLowerDepthAreMasked symbol current_depth current_mask_id st = Inr st' \<and>
           usageInfoBySymbol st' symbol = Some info' \<and>
           potentially_unmasked_ops info' =
             filter (\<lambda>u. fst u \<le> current_depth) (potentially_unmasked_ops info) \<and>
           length (requires_masking st') = length (requires_masking st) \<and>
           (\<forall>i < length (requires_masking st).
              requires_masking st' ! i =
                (requires_masking st ! i \<or>
                 (\<exists>u \<in> set (potentially_unmasked_ops info).
                    fst u > current_depth \<and> snd u = int i))))"
proof (cases "potentially_unmasked_ops info = []")
  case True
  with assms show ?thesis by (simp add: ensureWritesAtLowerDepthAreMasked_def)
next
  case False
  from mark_deeper_usages_Inr [OF assms(4), of current_depth "[]"] obtain masking' where
    run: "mark_deeper_usages current_depth (potentially_unmasked_ops info)
            (requires_masking st) [] =
          Inr (masking', filter (\<lambda>u. \<not> fst u > current_depth) (potentially_unmasked_ops info))"
    and len: "length masking' = length (requires_masking st)"
    and flags: "\<forall>i < length (requires_masking st).
        masking' ! i = (requires_masking st ! i \<or>
          (\<exists>u \<in> set (potentially_unmasked_ops info). fst u > current_depth \<and> snd u = int i))"
    by auto
  have "(\<lambda>u::int \<times> int. \<not> fst u > current_depth) = (\<lambda>u. fst u \<le> current_depth)"
    by (auto simp: fun_eq_iff)
  with run len flags False assms(1-3) show ?thesis
    by (simp add: ensureWritesAtLowerDepthAreMasked_def)
qed

theorem ensure_marks_exactly_deeper_writes_witness:
  "\<exists>st' info'.
     ensureWritesAtLowerDepthAreMasked sym_x 1 0 state_written_nested = Inr st' \<and>
     usageInfoBySymbol st' sym_x = Some info' \<and>
     potentially_unmasked_ops info' = [(1, 1)] \<and>
     length (requires_masking st') = 3 \<and>
     \<not> requires_masking st' ! 1 \<and> requires_masking st' ! 2"
proof -
  have u: "usageInfoBySymbol state_written_nested sym_x = Some usage_nested"
    by (simp add: state_written_nested_def)
  have d: "last_depth usage_nested > 1" and m: "last_maskId usage_nested \<noteq> 0"
    and p: "potentially_unmasked_ops usage_nested = [(1, 1), (2, 2)]"
    by (simp_all add: usage_nested_def)
  have rm: "requires_masking state_written_nested = [False, False, False]"
    by (simp add: state_written_nested_def discovery_new_def numeral_3_eq_3)
  have r: "\<forall>u \<in> set (potentially_unmasked_ops usage_nested).
             0 \<le> snd u \<and> snd u < int (length (requires_masking state_written_nested))"
    by (simp add: rm p)
  from ensure_marks_exactly_deeper_writes [OF u d m r] obtain st' info' where
    run: "ensureWritesAtLowerDepthAreMasked sym_x 1 0 state_written_nested = Inr st'"
    and u': "usageInfoBySymbol st' sym_x = Some info'"
    and p': "potentially_unmasked_ops info' =
               filter (\<lambda>u. fst u \<le> 1) (potentially_unmasked_ops usage_nested)"
    and len: "length (requires_masking st') = length (requires_masking state_written_nested)"
    and flags: "\<forall>i < length (requires_masking state_written_nested).
              requires_masking st' ! i =
                (requires_masking state_written_nested ! i \<or>
                 (\<exists>u \<in> set (potentially_unmasked_ops usage_nested).
                    fst u > 1 \<and> snd u = int i))"
    unfolding p by auto
  from flags have "\<not> requires_masking st' ! 1" "requires_masking st' ! 2"
    by (simp_all add: rm p)
  with run u' p' len show ?thesis by (simp add: p rm)
qed

text \<open>
  C4, as the spec has it: every call on a symbol of the usage table ends by setting its
  \<open>last_depth\<close> to the current depth. The source resets \<open>last_depth\<close> inside the
  branch that marks writes only: reading at depth 1 under mask 1 a symbol written at
  depth 0 under mask 0 leaves its \<open>last_depth\<close> at 0.
\<close>

theorem ensure_keeps_last_depth_counterexample:
  "ensureWritesAtLowerDepthAreMasked sym_x 1 1 state_written_at_top = Inr state_written_at_top
   \<and> map_option last_depth (usageInfoBySymbol state_written_at_top sym_x) = Some 0"
  by (simp add: ensureWritesAtLowerDepthAreMasked_def state_written_at_top_def)

text \<open>
  C4, amended: a call on a symbol of the usage table sets its \<open>last_depth\<close> to the
  current depth when the symbol was last written deeper than the current depth and under
  another mask id (and the call passes its assertion); any other call on it returns the
  state as it was, \<open>last_depth\<close> included.
\<close>

theorem ensure_sets_last_depth_when_marking:
  assumes "usageInfoBySymbol st symbol = Some info"
    and "\<forall>u \<in> set (potentially_unmasked_ops info).
           0 \<le> snd u \<and> snd u < int (length (requires_masking st))"
  shows "(last_depth info > current_depth \<and> last_maskId info \<noteq> current_mask_id \<and>
          potentially_unmasked_ops info \<noteq> [] \<longrightarrow>
            (\<exists>st'. ensureWritesAtLowerDepthAreMasked symbol current_depth current_mask_id st
                     = Inr st' \<and>
                   map_option last_depth (usageInfoBySymbol st' symbol) = Some current_depth)) \<and>
         (\<not> (last_depth info > current_depth \<and> last_maskId info \<noteq> current_mask_id) \<longrightarrow>
            ensureWritesAtLowerDepthAreMasked symbol current_depth current_mask_id st = Inr st)"
proof -
  from mark_deeper_usages_Inr [OF assms(2), of current_depth "[]"] obtain masking' where
    "mark_deeper_usages current_depth (potentially_unmasked_ops info)
            (requires_masking st) [] =
          Inr (masking', filter (\<lambda>u. \<not> fst u > current_depth) (potentially_unmasked_ops info))"
    by auto
  with assms(1) show ?thesis
    by (simp add: ensureWritesAtLowerDepthAreMasked_def)
qed

theorem ensure_sets_last_depth_when_marking_witness:
  "(\<exists>st'. ensureWritesAtLowerDepthAreMasked sym_x 0 0 state_written_nested = Inr st' \<and>
      map_option last_depth (usageInfoBySymbol st' sym_x) = Some 0) \<and>
   ensureWritesAtLowerDepthAreMasked sym_x 2 0 state_written_nested = Inr state_written_nested"
proof -
  have u: "usageInfoBySymbol state_written_nested sym_x = Some usage_nested"
    by (simp add: state_written_nested_def)
  have p: "potentially_unmasked_ops usage_nested = [(1, 1), (2, 2)]"
    and d: "last_depth usage_nested = 2" and m: "last_maskId usage_nested = 2"
    by (simp_all add: usage_nested_def)
  have rm: "requires_masking state_written_nested = [False, False, False]"
    by (simp add: state_written_nested_def discovery_new_def numeral_3_eq_3)
  have r: "\<forall>u \<in> set (potentially_unmasked_ops usage_nested).
             0 \<le> snd u \<and> snd u < int (length (requires_masking state_written_nested))"
    by (simp add: rm p)
  from ensure_sets_last_depth_when_marking [OF u r, of 0 0]
       ensure_sets_last_depth_when_marking [OF u r, of 2 0]
  show ?thesis by (simp add: p d m)
qed

subsection \<open>What the walk preserves\<close>

lemma extends_refl: "extends st st"
  by (simp add: extends_def)

lemma extends_trans: "extends a b \<Longrightarrow> extends b c \<Longrightarrow> extends a c"
  by (simp add: extends_def)

lemma extends_known: "extends st st' \<Longrightarrow> m_is_uniform_by_symbol st x \<noteq> None \<Longrightarrow> m_is_uniform_by_symbol st' x \<noteq> None"
  by (simp add: extends_def)

lemma mark_deeper_usages_length:
  "mark_deeper_usages d us masking acc = Inr (masking', acc') \<Longrightarrow> length masking' = length masking"
  by (induction us arbitrary: masking acc) (auto split: if_splits)

lemma extends_same:
  assumes "m_is_uniform_by_symbol st' = m_is_uniform_by_symbol st"
    and "symbolFeedForwardMap st' = symbolFeedForwardMap st"
    and "symbolsCurrentBlockDependsOn st' = symbolsCurrentBlockDependsOn st"
    and "length (requires_masking st') = length (requires_masking st)"
  shows "extends st st'"
  using assms by (simp add: extends_def discovered_sound_def)

lemma ensure_same:
  assumes "ensureWritesAtLowerDepthAreMasked s d m st = Inr st'"
  shows "m_is_uniform_by_symbol st' = m_is_uniform_by_symbol st \<and>
         symbolFeedForwardMap st' = symbolFeedForwardMap st \<and>
         symbolsCurrentBlockDependsOn st' = symbolsCurrentBlockDependsOn st \<and>
         loopControlFlowSymbolStack st' = loopControlFlowSymbolStack st \<and>
         symbolsWrittenToByGetAttribute st' = symbolsWrittenToByGetAttribute st \<and>
         nextMaskId st' = nextMaskId st \<and>
         length (requires_masking st') = length (requires_masking st)"
  using assms
  by (auto simp: ensureWritesAtLowerDepthAreMasked_def
      split: option.splits if_splits sum.splits dest: mark_deeper_usages_length)

lemma extends_ensure:
  "ensureWritesAtLowerDepthAreMasked s d m st = Inr st' \<Longrightarrow> extends st st'"
  using ensure_same [of s d m st st'] by (simp add: extends_same)

lemma extends_for_eachE:
  assumes step: "\<And>x s s'. x \<in> A \<Longrightarrow> \<forall>y\<in>K. m_is_uniform_by_symbol s y \<noteq> None \<Longrightarrow>
                   f x s = Inr s' \<Longrightarrow> extends s s'"
  shows "set xs \<subseteq> A \<Longrightarrow> \<forall>y\<in>K. m_is_uniform_by_symbol st y \<noteq> None \<Longrightarrow>
         for_eachE f xs st = Inr st' \<Longrightarrow> extends st st'"
proof (induction xs arbitrary: st)
  case Nil
  then show ?case by (simp add: extends_refl)
next
  case (Cons x xs)
  from Cons.prems(3) obtain s1 where a: "f x st = Inr s1" and b: "for_eachE f xs s1 = Inr st'"
    by (auto simp: bindE_def split: sum.splits)
  from step [OF _ Cons.prems(2) a] Cons.prems(1) have e1: "extends st s1" by simp
  with Cons.prems(2) have "\<forall>y\<in>K. m_is_uniform_by_symbol s1 y \<noteq> None" by (simp add: extends_def)
  from Cons.IH [OF _ this b] Cons.prems(1) have "extends s1 st'" by simp
  with e1 show ?case by (rule extends_trans)
qed

lemma discover_args_table:
  "fold (\<lambda>a m. m(argsym a \<mapsto> True)) as t x = (if x \<in> argsym ` set as then Some True else t x)"
  by (induction as arbitrary: t) auto

lemma extends_discover_args: "extends st (discover_args opcode st)"
  by (auto simp: extends_def discover_args_def discover_args_table discovered_sound_def)

lemma discover_args_known:
  "x \<in> argsym ` set (opargs opcode) \<Longrightarrow> m_is_uniform_by_symbol (discover_args opcode st) x \<noteq> None"
  by (simp add: discover_args_def discover_args_table)

lemma extends_read_symbol:
  assumes "m_is_uniform_by_symbol st r \<noteq> None" and "read_symbol ws d m r st = Inr st'"
  shows "extends st st'"
proof -
  let ?st1 = "st\<lparr>symbolFeedForwardMap := symbolFeedForwardMap st @ feeds_into r ws\<rparr>"
  have "extends st ?st1" using assms(1)
    by (auto simp: extends_def discovered_sound_def feeds_into_def)
  moreover from assms(2) have "extends ?st1 st'"
    unfolding read_symbol_def by (rule extends_ensure)
  ultimately show ?thesis by (rule extends_trans)
qed

lemma extends_write_symbol: "extends st (write_symbol wd wm i w st)"
  by (simp add: extends_def write_symbol_def discovered_sound_def)

lemma extends_fold_write_symbol: "extends st (fold (write_symbol wd wm i) ws st)"
proof (induction ws arbitrary: st)
  case Nil
  show ?case by (simp add: extends_refl)
next
  case (Cons w ws)
  from extends_write_symbol Cons.IH show ?case
    by (simp, rule extends_trans)
qed

lemma extends_block_dependencies: "extends st (block_dependencies ws st)"
  by (auto simp: extends_def block_dependencies_def discovered_sound_def feeds_into_def)

lemma symbolsReadByOp_args: "set (symbolsReadByOp opcode) \<subseteq> argsym ` set (opargs opcode)"
  by (auto simp: symbolsReadByOp_def)

lemma extends_discover_op:
  assumes "discover_op opcode i d wd m wm st = Inr st'"
  shows "extends st st' \<and> (\<forall>x \<in> set (symbolsReadByOp opcode). m_is_uniform_by_symbol st' x \<noteq> None)"
proof -
  let ?A = "set (symbolsReadByOp opcode)"
  let ?st0 = "discover_args opcode st"
  from assms obtain s1 where
    reads: "for_eachE (read_symbol (symbolsWrittenByOp opcode) d m) (symbolsReadByOp opcode) ?st0 = Inr s1"
    and st': "st' = block_dependencies (symbolsWrittenByOp opcode)
                (fold (write_symbol wd wm i) (symbolsWrittenByOp opcode) s1)"
    by (auto simp: discover_op_def bindE_def split: sum.splits)
  have known: "\<forall>y\<in>?A. m_is_uniform_by_symbol ?st0 y \<noteq> None"
    using symbolsReadByOp_args discover_args_known by blast
  have "extends ?st0 s1"
  proof (rule extends_for_eachE [where A = ?A and K = ?A, OF _ _ known reads])
    fix x s s'
    assume "x \<in> ?A" and "\<forall>y\<in>?A. m_is_uniform_by_symbol s y \<noteq> None"
      and "read_symbol (symbolsWrittenByOp opcode) d m x s = Inr s'"
    then show "extends s s'" using extends_read_symbol by blast
  qed simp
  with extends_discover_args have e1: "extends st s1" by (rule extends_trans)
  have e2: "extends s1 st'" unfolding st'
    using extends_fold_write_symbol extends_block_dependencies by (rule extends_trans)
  from e1 e2 have e: "extends st st'" by (rule extends_trans)
  from known have "\<forall>y\<in>?A. m_is_uniform_by_symbol st' y \<noteq> None"
    using extends_known [OF extends_trans [OF \<open>extends ?st0 s1\<close> e2]] by blast
  with e show ?thesis by blast
qed


lemma extends_push:
  assumes "pushSymbolsCurentBlockDependsOn opcode st = Inr st'"
    and "\<forall>x \<in> set (symbolsReadByOp opcode). m_is_uniform_by_symbol st x \<noteq> None"
  shows "extends st st'"
  using assms
  by (fastforce simp: pushSymbolsCurentBlockDependsOn_def extends_def discovered_sound_def
      split: list.splits)

lemma extends_pop:
  assumes "popSymbolsCurentBlockDependsOn opcode st = Inr st'"
  shows "extends st st'"
  using assms
  by (fastforce simp: popSymbolsCurentBlockDependsOn_def extends_def discovered_sound_def
      split: list.splits if_splits dest: in_set_butlastD)

lemma extends_push_loop:
  "push_loopControlFlowSymbol opcode st = Inr st' \<Longrightarrow> extends st st'"
  by (auto simp: push_loopControlFlowSymbol_def intro!: extends_same split: list.splits)

lemma extends_pop_loop:
  "pop_loopControlFlowSymbol opcode st = Inr st' \<Longrightarrow> extends st st'"
  by (auto simp: pop_loopControlFlowSymbol_def intro!: extends_same split: list.splits if_splits)

lemma extends_fresh_maskId: "extends st (snd (fresh_maskId st))"
  by (auto simp: fresh_maskId_def intro!: extends_same)

lemma extends_ensure_loop_condition:
  "ensure_loop_condition opcode d m st = Inr st' \<Longrightarrow> extends st st'"
  by (auto simp: ensure_loop_condition_def split: list.splits intro: extends_ensure)

lemma set_tl_subset: "set (tl xs) \<subseteq> set xs"
  by (cases xs) auto

lemma conditions_after_subset: "set (conditions_after c deps) \<subseteq> set deps"
proof -
  have "set (tl (dropWhile (\<lambda>x. x \<noteq> c) deps)) \<subseteq> set (dropWhile (\<lambda>x. x \<noteq> c) deps)"
    by (rule set_tl_subset)
  also have "\<dots> \<subseteq> set deps" by (rule set_dropWhileD [THEN subsetI])
  finally show ?thesis by (simp add: conditions_after_def)
qed

lemma extends_discover_break:
  assumes "discover_break i wd wm st = Inr st'"
  shows "extends st st'"
proof -
  from assms have tbl: "m_is_uniform_by_symbol st' = m_is_uniform_by_symbol st"
    and deps: "symbolsCurrentBlockDependsOn st' = symbolsCurrentBlockDependsOn st"
    and rm: "requires_masking st' = requires_masking st"
    and ffm: "\<exists>c. symbolFeedForwardMap st' = symbolFeedForwardMap st @
            map (\<lambda>d. (d, c)) (conditions_after c (symbolsCurrentBlockDependsOn st))"
    by (auto simp: discover_break_def Let_def split: if_splits)
  from ffm conditions_after_subset
  have "\<forall>e \<in> set (symbolFeedForwardMap st').
          e \<in> set (symbolFeedForwardMap st) \<or> fst e \<in> set (symbolsCurrentBlockDependsOn st)"
    by fastforce
  with tbl deps rm show ?thesis
    unfolding extends_def discovered_sound_def by metis
qed

lemma extends_discover_getattribute: "extends st (discover_getattribute opcode st)"
  by (simp add: discover_getattribute_def extends_same)

lemma extends_discover_after:
  assumes "discover_after opcode i wd wm st = Inr st'"
  shows "extends st st'"
proof -
  from assms obtain s1 where
    a: "(if opname opcode = op_break then discover_break i wd wm st else Inr st) = Inr s1"
    and b: "st' = (if opname opcode = op_getattribute then discover_getattribute opcode s1 else s1)"
    by (auto simp: discover_after_def bindE_def split: sum.splits)
  from a have "extends st s1"
    by (auto split: if_splits intro: extends_discover_break extends_refl)
  moreover from b have "extends s1 st'"
    by (auto intro: extends_discover_getattribute extends_refl)
  ultimately show ?thesis by (rule extends_trans)
qed

lemma walk_extendsD:
  assumes "walk_extends walk" and "walk b e d wd m wm st = Some (Inr st')"
  shows "extends st st'"
  using assms(1) [unfolded walk_extends_def, rule_format, OF assms(2)] .

lemma bindR_Some_Inr:
  "bindR r f = Some (Inr y) \<longleftrightarrow> (\<exists>x. r = Some (Inr x) \<and> f x = Some (Inr y))"
  by (auto simp: bindR_def split: option.splits sum.splits)

lemma bindE_Inr: "bindE r f = Inr y \<longleftrightarrow> (\<exists>x. r = Inr x \<and> f x = Inr y)"
  by (auto simp: bindE_def split: sum.splits)

lemma discover_if_Inr:
  assumes "discover_if walk opcode i d st = Some (Inr st')"
  shows "\<exists>s1 s3 s5. pushSymbolsCurentBlockDependsOn opcode st = Inr s1 \<and>
    walk (i + 1) (jump0 opcode) (d + 1) (d + 1) (fst (fresh_maskId s1))
      (fst (fresh_maskId s1)) (snd (fresh_maskId s1)) = Some (Inr s3) \<and>
    walk (jump0 opcode) (jump1 opcode) (d + 1) (d + 1) (fst (fresh_maskId s3))
      (fst (fresh_maskId s3)) (snd (fresh_maskId s3)) = Some (Inr s5) \<and>
    popSymbolsCurentBlockDependsOn opcode s5 = Inr st'"
  using assms by (simp add: discover_if_def bindR_Some_Inr case_prod_beta)

lemma discover_loop_Inr:
  assumes "discover_loop walk opcode i d m st = Some (Inr st')"
  shows "\<exists>s1 s3 s4 s5 s6 s7 s8 s9.
    walk (i + 1) (jump0 opcode) d d m m st = Some (Inr s1) \<and>
    pushSymbolsCurentBlockDependsOn opcode (snd (fresh_maskId s1)) = Inr s3 \<and>
    push_loopControlFlowSymbol opcode s3 = Inr s4 \<and>
    walk (jump1 opcode) (jump2 opcode) (d + 1) (d + 1) (fst (fresh_maskId s1))
      (fst (fresh_maskId s1)) s4 = Some (Inr s5) \<and>
    walk (jump2 opcode) (jump3 opcode) (d + 1) (d + 1) (fst (fresh_maskId s1))
      (fst (fresh_maskId s1)) s5 = Some (Inr s6) \<and>
    walk (jump0 opcode) (jump1 opcode) d (d + 1) m (fst (fresh_maskId s1)) s6
      = Some (Inr s7) \<and>
    ensure_loop_condition opcode d m s7 = Inr s8 \<and>
    popSymbolsCurentBlockDependsOn opcode s8 = Inr s9 \<and>
    pop_loopControlFlowSymbol opcode s9 = Inr st'"
  using assms by (simp add: discover_loop_def bindR_Some_Inr case_prod_beta)

lemma extends_discover_if:
  assumes w: "walk_extends walk"
    and run: "discover_if walk opcode i d st = Some (Inr st')"
    and known: "\<forall>x \<in> set (symbolsReadByOp opcode). m_is_uniform_by_symbol st x \<noteq> None"
  shows "extends st st'"
proof -
  from discover_if_Inr [OF run] obtain s1 s3 s5 where
    1: "pushSymbolsCurentBlockDependsOn opcode st = Inr s1"
    and 3: "walk (i + 1) (jump0 opcode) (d + 1) (d + 1) (fst (fresh_maskId s1))
              (fst (fresh_maskId s1)) (snd (fresh_maskId s1)) = Some (Inr s3)"
    and 5: "walk (jump0 opcode) (jump1 opcode) (d + 1) (d + 1) (fst (fresh_maskId s3))
              (fst (fresh_maskId s3)) (snd (fresh_maskId s3)) = Some (Inr s5)"
    and 6: "popSymbolsCurentBlockDependsOn opcode s5 = Inr st'"
    by blast
  have "extends st s1" by (rule extends_push [OF 1 known])
  then have "extends st (snd (fresh_maskId s1))" using extends_fresh_maskId [of s1] by (rule extends_trans)
  then have "extends st s3" using walk_extendsD [where walk = walk, OF w 3] by (rule extends_trans)
  then have "extends st (snd (fresh_maskId s3))" using extends_fresh_maskId [of s3] by (rule extends_trans)
  then have "extends st s5" using walk_extendsD [where walk = walk, OF w 5] by (rule extends_trans)
  then show ?thesis using extends_pop [OF 6] by (rule extends_trans)
qed

lemma extends_discover_loop:
  assumes w: "walk_extends walk"
    and run: "discover_loop walk opcode i d m st = Some (Inr st')"
    and known: "\<forall>x \<in> set (symbolsReadByOp opcode). m_is_uniform_by_symbol st x \<noteq> None"
  shows "extends st st'"
proof -
  from discover_loop_Inr [OF run] obtain s1 s3 s4 s5 s6 s7 s8 s9 where
    1: "walk (i + 1) (jump0 opcode) d d m m st = Some (Inr s1)"
    and 3: "pushSymbolsCurentBlockDependsOn opcode (snd (fresh_maskId s1)) = Inr s3"
    and 4: "push_loopControlFlowSymbol opcode s3 = Inr s4"
    and 5: "walk (jump1 opcode) (jump2 opcode) (d + 1) (d + 1) (fst (fresh_maskId s1))
              (fst (fresh_maskId s1)) s4 = Some (Inr s5)"
    and 6: "walk (jump2 opcode) (jump3 opcode) (d + 1) (d + 1) (fst (fresh_maskId s1))
              (fst (fresh_maskId s1)) s5 = Some (Inr s6)"
    and 7: "walk (jump0 opcode) (jump1 opcode) d (d + 1) m (fst (fresh_maskId s1)) s6
              = Some (Inr s7)"
    and 8: "ensure_loop_condition opcode d m s7 = Inr s8"
    and 9: "popSymbolsCurentBlockDependsOn opcode s8 = Inr s9"
    and 10: "pop_loopControlFlowSymbol opcode s9 = Inr st'"
    by blast
  have e2: "extends st (snd (fresh_maskId s1))"
    using walk_extendsD [where walk = walk, OF w 1] extends_fresh_maskId [of s1] by (rule extends_trans)
  with known have k2: "\<forall>x \<in> set (symbolsReadByOp opcode).
      m_is_uniform_by_symbol (snd (fresh_maskId s1)) x \<noteq> None"
    using extends_known by blast
  note e2
  then have "extends st s3" using extends_push [OF 3 k2] by (rule extends_trans)
  then have "extends st s4" using extends_push_loop [OF 4] by (rule extends_trans)
  then have "extends st s5" using walk_extendsD [where walk = walk, OF w 5] by (rule extends_trans)
  then have "extends st s6" using walk_extendsD [where walk = walk, OF w 6] by (rule extends_trans)
  then have "extends st s7" using walk_extendsD [where walk = walk, OF w 7] by (rule extends_trans)
  then have "extends st s8" using extends_ensure_loop_condition [OF 8] by (rule extends_trans)
  then have "extends st s9" using extends_pop [OF 9] by (rule extends_trans)
  then show ?thesis using extends_pop_loop [OF 10] by (rule extends_trans)
qed

lemma extends_discover_nested:
  assumes w: "walk_extends walk"
    and run: "discover_nested walk opcode i d wd m wm st = Some (Inr st')"
    and known: "\<forall>x \<in> set (symbolsReadByOp opcode). m_is_uniform_by_symbol st x \<noteq> None"
  shows "extends st st'"
  using run extends_discover_if [OF w _ known] extends_discover_loop [OF w _ known]
    walk_extendsD [OF w] extends_refl
  by (auto simp: discover_nested_def split: if_splits)

lemma walk_extends_discoverSymbolsBetween:
  "walk_extends (discoverSymbolsBetween fuel inst)"
proof (induction fuel)
  case 0
  show ?case by (simp add: walk_extends_def)
next
  case (Suc fuel)
  show ?case unfolding walk_extends_def
  proof (intro allI impI)
    fix b e d wd m wm st st'
    assume run: "discoverSymbolsBetween (Suc fuel) inst b e d wd m wm st = Some (Inr st')"
    show "extends st st'"
    proof (cases "b < e")
      case False
      with run show ?thesis by (simp add: extends_refl)
    next
      case True
      with run obtain opcode s1 s2 s3 where
        1: "discover_op opcode b d wd m wm st = Inr s1"
        and 2: "discover_nested (discoverSymbolsBetween fuel inst) opcode b d wd m wm s1
                  = Some (Inr s2)"
        and 3: "discover_after opcode b wd wm s2 = Inr s3"
        and 4: "discoverSymbolsBetween fuel inst (next_opIndex opcode b) e d wd m wm s3
                  = Some (Inr st')"
        by (auto simp: bindR_Some_Inr)
      from extends_discover_op [OF 1] have e1: "extends st s1"
        and known: "\<forall>x \<in> set (symbolsReadByOp opcode). m_is_uniform_by_symbol s1 x \<noteq> None"
        by blast+
      note e1
      then have "extends st s2" using extends_discover_nested [OF Suc.IH 2 known] by (rule extends_trans)
      then have "extends st s3" using extends_discover_after [OF 3] by (rule extends_trans)
      then show ?thesis using walk_extendsD [where walk = "discoverSymbolsBetween fuel inst", OF Suc.IH 4] by (rule extends_trans)
    qed
  qed
qed

lemma extends_discoverSymbolsBetween:
  "discoverSymbolsBetween fuel inst b e d wd m wm st = Some (Inr st') \<Longrightarrow> extends st st'"
  by (rule walk_extendsD [where walk = "discoverSymbolsBetween fuel inst",
        OF walk_extends_discoverSymbolsBetween])

lemma extends_for_eachR:
  assumes step: "\<forall>x s s'. f x s = Some (Inr s') \<longrightarrow> extends s s'"
  shows "for_eachR f xs st = Some (Inr st') \<Longrightarrow> extends st st'"
proof (induction xs arbitrary: st)
  case Nil
  then show ?case by (simp add: extends_refl)
next
  case (Cons x xs)
  from Cons.prems obtain s1 where a: "f x st = Some (Inr s1)"
    and b: "for_eachR f xs s1 = Some (Inr st')"
    by (auto simp: bindR_Some_Inr)
  from step a have "extends st s1" by blast
  then show ?case using Cons.IH [OF b] by (rule extends_trans)
qed

lemma extends_ensure_output_param:
  "ensure_output_param mainMask s st = Inr st' \<Longrightarrow> extends st st'"
  by (auto simp: ensure_output_param_def split: if_splits intro: extends_ensure extends_refl)

text \<open>The state handed to the marking, and the state the marking returns.\<close>

lemma discover_layer_Inr:
  assumes "discover_layer fuel inst st = Some (Inr st')"
  shows "\<exists>s1 s2 s3 s4.
    for_eachR (walk_init_ops fuel inst (fst (fresh_maskId st)))
      (filter (symbol_init_ops_walked inst) (symbols inst)) (snd (fresh_maskId st))
      = Some (Inr s1) \<and>
    for_eachR (walk_init_ops fuel inst (fst (fresh_maskId st)))
      (filter (param_init_ops_walked inst) (params inst)) s1 = Some (Inr s2) \<and>
    discoverSymbolsBetween fuel inst (maincodebegin inst) (maincodeend inst)
      0 0 (fst (fresh_maskId st)) (fst (fresh_maskId st)) s2 = Some (Inr s3) \<and>
    for_eachE (ensure_output_param (fst (fresh_maskId st))) (params inst) s3 = Inr s4 \<and>
    mark_varying fuel inst s4 = Some (Inr st')"
  using assms by (simp add: discover_layer_def bindR_Some_Inr case_prod_beta)

lemma discover_layer_walked:
  assumes "discover_layer fuel inst st = Some (Inr st')"
  shows "\<exists>sw tbl. extends st sw \<and>
           for_each (recursivelyMarkNonUniform fuel (symbolFeedForwardMap sw))
             (marked_symbols inst sw) (m_is_uniform_by_symbol sw) = Some tbl \<and>
           st' = sw\<lparr>m_is_uniform_by_symbol := tbl\<rparr>"
proof -
  define mainMask where "mainMask = fst (fresh_maskId st)"
  from discover_layer_Inr [OF assms] obtain s1 s2 s3 s4 where
    1: "for_eachR (walk_init_ops fuel inst mainMask)
              (filter (symbol_init_ops_walked inst) (symbols inst)) (snd (fresh_maskId st))
          = Some (Inr s1)"
    and 2: "for_eachR (walk_init_ops fuel inst mainMask)
              (filter (param_init_ops_walked inst) (params inst)) s1 = Some (Inr s2)"
    and 3: "discoverSymbolsBetween fuel inst (maincodebegin inst) (maincodeend inst)
              0 0 mainMask mainMask s2 = Some (Inr s3)"
    and 4: "for_eachE (ensure_output_param mainMask) (params inst) s3 = Inr s4"
    and 5: "mark_varying fuel inst s4 = Some (Inr st')"
    unfolding mainMask_def by blast
  have init: "\<forall>x s s'. walk_init_ops fuel inst mainMask x s = Some (Inr s') \<longrightarrow> extends s s'"
    unfolding walk_init_ops_def using extends_discoverSymbolsBetween by blast
  have out: "extends s3 s4"
    by (rule extends_for_eachE [where A = UNIV and K = "{}", OF _ _ _ 4])
       (auto intro: extends_ensure_output_param)
  have "extends st (snd (fresh_maskId st))" by (rule extends_fresh_maskId)
  then have "extends st s1" using extends_for_eachR [OF init 1] by (rule extends_trans)
  then have "extends st s2" using extends_for_eachR [OF init 2] by (rule extends_trans)
  then have "extends st s3" using extends_discoverSymbolsBetween [OF 3] by (rule extends_trans)
  then have "extends st s4" using out by (rule extends_trans)
  with 5 show ?thesis
    by (auto simp: mark_varying_def split: option.splits)
qed

subsection \<open>The marking reaches what the seeds feed\<close>

lemma for_each_mark:
  assumes ok: "mark_ok E f"
  shows "for_each f ws t = Some t' \<Longrightarrow>
      (\<forall>x. t' x = t x \<or> t' x = Some False) \<and>
      (\<forall>x. t' x = Some False \<longrightarrow> t x = Some False \<or> (\<exists>w \<in> set ws. (w, x) \<in> (set E)\<^sup>*)) \<and>
      (\<forall>w \<in> set ws. t' w = Some False) \<and>
      ((\<forall>e \<in> set E. t (fst e) \<noteq> None) \<longrightarrow>
         (\<forall>e \<in> set E. t' (fst e) = Some False \<and> t (fst e) \<noteq> Some False \<longrightarrow> t' (snd e) = Some False))"
proof (induction ws arbitrary: t)
  case Nil
  then show ?case by simp
next
  case (Cons w ws)
  from Cons.prems obtain t2 where s1: "f w t = Some t2" and s2: "for_each f ws t2 = Some t'"
    by (auto split: option.splits)
  from ok s1 have a1: "\<forall>x. t2 x = t x \<or> t2 x = Some False"
    and a2: "\<forall>x. t2 x = Some False \<longrightarrow> t x = Some False \<or> (w, x) \<in> (set E)\<^sup>*"
    and a3: "t2 w = Some False"
    and a4: "(\<forall>e \<in> set E. t (fst e) \<noteq> None) \<longrightarrow>
         (\<forall>e \<in> set E. t2 (fst e) = Some False \<and> t (fst e) \<noteq> Some False \<longrightarrow> t2 (snd e) = Some False)"
    unfolding mark_ok_def by blast+
  from Cons.IH [OF s2] have b1: "\<forall>x. t' x = t2 x \<or> t' x = Some False"
    and b2: "\<forall>x. t' x = Some False \<longrightarrow> t2 x = Some False \<or> (\<exists>w \<in> set ws. (w, x) \<in> (set E)\<^sup>*)"
    and b3: "\<forall>w \<in> set ws. t' w = Some False"
    and b4: "(\<forall>e \<in> set E. t2 (fst e) \<noteq> None) \<longrightarrow>
         (\<forall>e \<in> set E. t' (fst e) = Some False \<and> t2 (fst e) \<noteq> Some False \<longrightarrow> t' (snd e) = Some False)"
    by blast+
  have c1: "\<forall>x. t' x = t x \<or> t' x = Some False" using a1 b1 by metis
  have c2: "\<forall>x. t' x = Some False \<longrightarrow> t x = Some False \<or> (\<exists>v \<in> set (w # ws). (v, x) \<in> (set E)\<^sup>*)"
    using a2 b2 by (metis list.set_intros(1,2))
  have c3: "\<forall>v \<in> set (w # ws). t' v = Some False" using a3 b1 b3 by (metis set_ConsD)
  have c4: "(\<forall>e \<in> set E. t (fst e) \<noteq> None) \<longrightarrow>
         (\<forall>e \<in> set E. t' (fst e) = Some False \<and> t (fst e) \<noteq> Some False \<longrightarrow> t' (snd e) = Some False)"
  proof (intro impI ballI)
    fix e assume D: "\<forall>e \<in> set E. t (fst e) \<noteq> None" and e: "e \<in> set E"
      and h: "t' (fst e) = Some False \<and> t (fst e) \<noteq> Some False"
    from D a1 have D2: "\<forall>e \<in> set E. t2 (fst e) \<noteq> None" by (metis option.distinct(1))
    show "t' (snd e) = Some False"
    proof (cases "t2 (fst e) = Some False")
      case True
      with a4 D e h have "t2 (snd e) = Some False" by blast
      with b1 show ?thesis by metis
    next
      case False
      with b4 D2 e h show ?thesis by blast
    qed
  qed
  from c1 c2 c3 c4 show ?case by blast
qed

lemma feeds_of_edge: "w \<in> set (feeds_of E s) \<longleftrightarrow> (s, w) \<in> set E"
  by (force simp: feeds_of_def)

lemma mark_ok_recursivelyMarkNonUniform: "mark_ok E (recursivelyMarkNonUniform fuel E)"
proof (induction fuel)
  case 0
  show ?case by (simp add: mark_ok_def)
next
  case (Suc fuel)
  show ?case unfolding mark_ok_def
  proof (intro allI impI)
    fix s t t'
    assume run: "recursivelyMarkNonUniform (Suc fuel) E s t = Some t'"
    let ?t1 = "t(s \<mapsto> False)"
    show "(\<forall>x. t' x = t x \<or> t' x = Some False) \<and>
      (\<forall>x. t' x = Some False \<longrightarrow> t x = Some False \<or> (s, x) \<in> (set E)\<^sup>*) \<and>
      t' s = Some False \<and>
      ((\<forall>e \<in> set E. t (fst e) \<noteq> None) \<longrightarrow>
         (\<forall>e \<in> set E. t' (fst e) = Some False \<and> t (fst e) \<noteq> Some False \<longrightarrow> t' (snd e) = Some False))"
    proof (cases "t s = Some True")
      case True
      with run have fe: "for_each (recursivelyMarkNonUniform fuel E) (feeds_of E s) ?t1 = Some t'"
        by simp
      note F = for_each_mark [OF Suc.IH fe]
      from F have f1: "\<forall>x. t' x = ?t1 x \<or> t' x = Some False"
        and f2: "\<forall>x. t' x = Some False \<longrightarrow> ?t1 x = Some False \<or> (\<exists>w \<in> set (feeds_of E s). (w, x) \<in> (set E)\<^sup>*)"
        and f3: "\<forall>w \<in> set (feeds_of E s). t' w = Some False"
        and f4: "(\<forall>e \<in> set E. ?t1 (fst e) \<noteq> None) \<longrightarrow>
         (\<forall>e \<in> set E. t' (fst e) = Some False \<and> ?t1 (fst e) \<noteq> Some False \<longrightarrow> t' (snd e) = Some False)"
        by blast+
      have g1: "\<forall>x. t' x = t x \<or> t' x = Some False"
      proof
        fix x from f1 have "t' x = ?t1 x \<or> t' x = Some False" by blast
        then show "t' x = t x \<or> t' x = Some False" by (cases "x = s") auto
      qed
      have g3: "t' s = Some False" using f1 by (metis fun_upd_same)
      have g2: "\<forall>x. t' x = Some False \<longrightarrow> t x = Some False \<or> (s, x) \<in> (set E)\<^sup>*"
      proof (intro allI impI)
        fix x assume "t' x = Some False"
        with f2 consider "?t1 x = Some False" | w where "w \<in> set (feeds_of E s)" "(w, x) \<in> (set E)\<^sup>*"
          by blast
        then show "t x = Some False \<or> (s, x) \<in> (set E)\<^sup>*"
        proof cases
          case 1
          then show ?thesis by (cases "x = s") auto
        next
          case 2
          then have "(s, w) \<in> set E" by (simp add: feeds_of_edge)
          with 2 show ?thesis by (meson converse_rtrancl_into_rtrancl)
        qed
      qed
      have g4: "(\<forall>e \<in> set E. t (fst e) \<noteq> None) \<longrightarrow>
         (\<forall>e \<in> set E. t' (fst e) = Some False \<and> t (fst e) \<noteq> Some False \<longrightarrow> t' (snd e) = Some False)"
      proof (intro impI ballI)
        fix e assume D: "\<forall>e \<in> set E. t (fst e) \<noteq> None" and e: "e \<in> set E"
          and h: "t' (fst e) = Some False \<and> t (fst e) \<noteq> Some False"
        show "t' (snd e) = Some False"
        proof (cases "fst e = s")
          case True
          with e have "snd e \<in> set (feeds_of E s)" by (metis feeds_of_edge prod.collapse)
          with f3 show ?thesis by blast
        next
          case False
          have "\<forall>e \<in> set E. ?t1 (fst e) \<noteq> None"
          proof
            fix e' assume "e' \<in> set E"
            with D have "t (fst e') \<noteq> None" by blast
            then show "?t1 (fst e') \<noteq> None" by (cases "fst e' = s") auto
          qed
          with f4 e h False show ?thesis by simp
        qed
      qed
      from g1 g2 g3 g4 show ?thesis by blast
    next
      case False
      with run have t': "t' = ?t1" by (auto split: option.splits bool.splits)
      have "\<forall>x. ?t1 x = t x \<or> ?t1 x = Some False" by simp
      moreover have "\<forall>x. ?t1 x = Some False \<longrightarrow> t x = Some False \<or> (s, x) \<in> (set E)\<^sup>*"
        by auto
      moreover have "(\<forall>e \<in> set E. t (fst e) \<noteq> None) \<longrightarrow>
         (\<forall>e \<in> set E. ?t1 (fst e) = Some False \<and> t (fst e) \<noteq> Some False \<longrightarrow> ?t1 (snd e) = Some False)"
      proof (intro impI ballI)
        fix e assume D: "\<forall>e \<in> set E. t (fst e) \<noteq> None" and e: "e \<in> set E"
          and h: "?t1 (fst e) = Some False \<and> t (fst e) \<noteq> Some False"
        from D e have "t (fst e) \<noteq> None" by blast
        with False h have "fst e \<noteq> s" by (cases "t s") auto
        with h show "?t1 (snd e) = Some False" by simp
      qed
      ultimately show ?thesis unfolding t' by simp
    qed
  qed
qed

text \<open>Propagation from a table without varying entries.\<close>

lemma marking_reachable:
  assumes run: "for_each (recursivelyMarkNonUniform fuel E) seeds t = Some t'"
    and true: "\<forall>x. t x \<noteq> Some False"
    and readers: "\<forall>e \<in> set E. t (fst e) \<noteq> None"
  shows "t' x = Some False \<longleftrightarrow> (\<exists>seed \<in> set seeds. (seed, x) \<in> (set E)\<^sup>*)"
proof -
  note F = for_each_mark [OF mark_ok_recursivelyMarkNonUniform run]
  from F true have sound: "\<forall>x. t' x = Some False \<longrightarrow> (\<exists>w \<in> set seeds. (w, x) \<in> (set E)\<^sup>*)"
    by blast
  from F have seeds: "\<forall>w \<in> set seeds. t' w = Some False" by blast
  from F readers true have closed: "\<forall>e \<in> set E. t' (fst e) = Some False \<longrightarrow> t' (snd e) = Some False"
    by blast
  have "t' x = Some False" if "(seed, x) \<in> (set E)\<^sup>*" and "seed \<in> set seeds" for seed
    using that
  proof (induction rule: rtrancl_induct)
    case base
    with seeds show ?case by blast
  next
    case (step y z)
    with closed show ?case by fastforce
  qed
  with sound show ?thesis by blast
qed

lemma marking_unchanged:
  assumes run: "for_each (recursivelyMarkNonUniform fuel E) seeds t = Some t'"
  shows "t' x = t x \<or> t' x = Some False"
  using for_each_mark [OF mark_ok_recursivelyMarkNonUniform run] by blast


subsection \<open>The table after the analysis\<close>

lemma discovered_sound_new: "discovered_sound (discovery_new Map.empty n)"
  by (simp add: discovered_sound_def discovery_new_def)

lemma marked_symbols_cong:
  "symbolFeedForwardMap a = symbolFeedForwardMap b \<Longrightarrow>
   symbolsWrittenToByGetAttribute a = symbolsWrittenToByGetAttribute b \<Longrightarrow>
   marked_symbols inst a = marked_symbols inst b"
  by (simp add: marked_symbols_def)

text \<open>The table after the analysis of a layer, from a table without entries.\<close>

lemma discover_layer_table:
  assumes run: "discover_layer fuel inst (discovery_new Map.empty n) = Some (Inr st)"
  shows "m_is_uniform_by_symbol st x = Some False \<longleftrightarrow>
         (\<exists>seed \<in> set (marked_symbols inst st).
            (seed, x) \<in> (set (symbolFeedForwardMap st))\<^sup>*)"
proof -
  from discover_layer_walked [OF run] obtain sw tbl where
    ext: "extends (discovery_new Map.empty n) sw"
    and mark: "for_each (recursivelyMarkNonUniform fuel (symbolFeedForwardMap sw))
                 (marked_symbols inst sw) (m_is_uniform_by_symbol sw) = Some tbl"
    and st: "st = sw\<lparr>m_is_uniform_by_symbol := tbl\<rparr>"
    by blast
  from ext discovered_sound_new have "discovered_sound sw" by (simp add: extends_def)
  then have true: "\<forall>x. m_is_uniform_by_symbol sw x \<noteq> Some False"
    and readers: "\<forall>e \<in> set (symbolFeedForwardMap sw). m_is_uniform_by_symbol sw (fst e) \<noteq> None"
    by (simp_all add: discovered_sound_def)
  have "marked_symbols inst st = marked_symbols inst sw"
    by (rule marked_symbols_cong) (simp_all add: st)
  with marking_reachable [OF mark true readers, of x] show ?thesis by (simp add: st)
qed

lemma discover_layer_masking_length:
  assumes run: "discover_layer fuel inst st0 = Some (Inr st)"
  shows "length (requires_masking st) = length (requires_masking st0)"
proof -
  from discover_layer_walked [OF run] obtain sw tbl where
    "extends st0 sw" and "st = sw\<lparr>m_is_uniform_by_symbol := tbl\<rparr>"
    by blast
  then show ?thesis by (simp add: extends_def)
qed

lemma varying_feeds_iff:
  "s \<in> set (varying_feeds E) \<longleftrightarrow> s \<in> fst ` set E \<and> \<not> feed_is_uniform s"
  by (auto simp: varying_feeds_def)

lemma feed_is_uniform_iff:
  "\<not> feed_is_uniform s \<longleftrightarrow>
     (symtype s = SymTypeGlobal \<and> \<not> IsShaderGlobalUniformByName (name s)) \<or>
     symtype s = SymTypeParam"
  by (auto simp: feed_is_uniform_def)

lemma IsShaderGlobalUniformByName_iff:
  "IsShaderGlobalUniformByName n \<longleftrightarrow>
     n \<in> {''renderstate'', ''tracedata'', ''objdata'', ''shadingcontext'', ''renderer'',
          ''Ci'', ''raytype'', ''pad0'', ''pad1'', ''pad2''}"
  unfolding IsShaderGlobalUniformByName_def fields_sg_def field_is_uniform_def
  by (simp del: insert_iff) auto

lemma singleton_path: "(a, b) \<in> {(p, x)}\<^sup>* \<Longrightarrow> a = b \<or> (a = p \<and> b = x)"
  by (induction rule: rtrancl_induct) auto

lemma layer_param_run:
  "case discover_layer 4 layer_param (discovery_new Map.empty (length (ops layer_param))) of
     Some (Inr st) \<Rightarrow>
       m_is_uniform_by_symbol st sym_p = Some False \<and>
       m_is_uniform_by_symbol st sym_x = Some False \<and>
       m_is_uniform_by_symbol st sym_P = Some True \<and>
       symbolFeedForwardMap st = [(sym_p, sym_x)] \<and>
       symbolsWrittenToByGetAttribute st = []
   | _ \<Rightarrow> False"
  by code_simp

text \<open>
  C1, as the spec has it: a symbol of the table is varying if and only if it is a varying
  seed (a global with a varying name, a connected parameter, an output parameter, a symbol
  written by \<^verbatim>\<open>getattribute\<close>) or is reached from one. In \<^verbatim>\<open>x = p; printf (P);\<close>
  the parameter \<open>p\<close> is not connected and nothing feeds it, yet it ends varying; the
  global \<open>P\<close> has a varying name, yet it ends uniform: it feeds no symbol, and the seeds are
  taken from the readers of the feed-forward edges.
\<close>

theorem is_uniform_not_spec_counterexample:
  "case discover_layer 4 layer_param (discovery_new Map.empty (length (ops layer_param))) of
     Some (Inr st) \<Rightarrow>
       m_is_uniform_by_symbol st sym_p = Some False \<and> \<not> spec_is_varying st sym_p \<and>
       m_is_uniform_by_symbol st sym_P = Some True \<and> spec_is_varying st sym_P
   | _ \<Rightarrow> False"
proof -
  from layer_param_run obtain st where
    run: "discover_layer 4 layer_param (discovery_new Map.empty (length (ops layer_param)))
            = Some (Inr st)"
    and p: "m_is_uniform_by_symbol st sym_p = Some False"
    and P: "m_is_uniform_by_symbol st sym_P = Some True"
    and E: "symbolFeedForwardMap st = [(sym_p, sym_x)]"
    and G: "symbolsWrittenToByGetAttribute st = []"
    by (auto split: option.splits sum.splits)
  have px: "sym_p \<noteq> sym_x" by (simp add: sym_p_def sym_x_def mk_symbol_def)
  have not_seed: "\<not> spec_varying_seed st sym_p"
    by (simp add: spec_varying_seed_def G sym_p_def mk_symbol_def)
  have "\<not> spec_is_varying st sym_p"
  proof
    assume "spec_is_varying st sym_p"
    then obtain seed where s: "spec_varying_seed st seed"
      and path: "(seed, sym_p) \<in> {(sym_p, sym_x)}\<^sup>*"
      by (auto simp: spec_is_varying_def E)
    from singleton_path [OF path] px have "seed = sym_p" by auto
    with s not_seed show False by simp
  qed
  moreover have "spec_varying_seed st sym_P"
    by (simp add: spec_varying_seed_def IsShaderGlobalUniformByName_iff sym_P_def mk_symbol_def)
  then have "spec_is_varying st sym_P" unfolding spec_is_varying_def by blast
  ultimately show ?thesis using run p P by simp
qed

text \<open>
  C1, amended. After the analysis of a layer from a table without entries: a symbol that is
  varying in the table is reached, in zero or more feed-forward edges, from a global whose
  name is not a uniform one, from a parameter (connected or not), from an output parameter
  or from a symbol written by \<^verbatim>\<open>getattribute\<close>; and a symbol is varying in the table
  whenever it is so reached from an output parameter of the layer, from a symbol written by
  \<^verbatim>\<open>getattribute\<close>, or from such a global or parameter that is the reader of a
  feed-forward edge.
\<close>

theorem is_uniform_false_iff_reached:
  assumes "discover_layer fuel inst (discovery_new Map.empty (length (ops inst))) = Some (Inr st)"
  shows
    "(m_is_uniform_by_symbol st s = Some False \<longrightarrow>
        (\<exists>seed.
           ((symtype seed = SymTypeGlobal \<and> \<not> IsShaderGlobalUniformByName (name seed)) \<or>
            symtype seed = SymTypeParam \<or> symtype seed = SymTypeOutputParam \<or>
            seed \<in> set (symbolsWrittenToByGetAttribute st)) \<and>
           (seed, s) \<in> (set (symbolFeedForwardMap st))\<^sup>*)) \<and>
     (\<forall>seed.
        ((((symtype seed = SymTypeGlobal \<and> \<not> IsShaderGlobalUniformByName (name seed)) \<or>
           symtype seed = SymTypeParam) \<and> seed \<in> fst ` set (symbolFeedForwardMap st)) \<or>
         seed \<in> set (output_params inst) \<or>
         seed \<in> set (symbolsWrittenToByGetAttribute st)) \<and>
        (seed, s) \<in> (set (symbolFeedForwardMap st))\<^sup>* \<longrightarrow>
        m_is_uniform_by_symbol st s = Some False)"
proof -
  note tbl = discover_layer_table [OF assms, of s]
  have marked: "seed \<in> set (marked_symbols inst st) \<longleftrightarrow>
      (((symtype seed = SymTypeGlobal \<and> \<not> IsShaderGlobalUniformByName (name seed)) \<or>
           symtype seed = SymTypeParam) \<and> seed \<in> fst ` set (symbolFeedForwardMap st)) \<or>
         seed \<in> set (output_params inst) \<or>
         seed \<in> set (symbolsWrittenToByGetAttribute st)" for seed
    unfolding marked_symbols_def set_append Un_iff varying_feeds_iff feed_is_uniform_iff
    by blast
  have out: "seed \<in> set (output_params inst) \<Longrightarrow> symtype seed = SymTypeOutputParam" for seed
    by (simp add: output_params_def)
  show ?thesis
  proof (intro conjI impI allI)
    assume "m_is_uniform_by_symbol st s = Some False"
    with tbl obtain seed where m: "seed \<in> set (marked_symbols inst st)"
      and p: "(seed, s) \<in> (set (symbolFeedForwardMap st))\<^sup>*"
      by blast
    from m marked [of seed] out [of seed]
    have "(symtype seed = SymTypeGlobal \<and> \<not> IsShaderGlobalUniformByName (name seed)) \<or>
            symtype seed = SymTypeParam \<or> symtype seed = SymTypeOutputParam \<or>
            seed \<in> set (symbolsWrittenToByGetAttribute st)"
      by blast
    with p show "\<exists>seed.
           ((symtype seed = SymTypeGlobal \<and> \<not> IsShaderGlobalUniformByName (name seed)) \<or>
            symtype seed = SymTypeParam \<or> symtype seed = SymTypeOutputParam \<or>
            seed \<in> set (symbolsWrittenToByGetAttribute st)) \<and>
           (seed, s) \<in> (set (symbolFeedForwardMap st))\<^sup>*"
      by blast
  next
    fix seed
    assume h: "((((symtype seed = SymTypeGlobal \<and> \<not> IsShaderGlobalUniformByName (name seed)) \<or>
           symtype seed = SymTypeParam) \<and> seed \<in> fst ` set (symbolFeedForwardMap st)) \<or>
         seed \<in> set (output_params inst) \<or>
         seed \<in> set (symbolsWrittenToByGetAttribute st)) \<and>
        (seed, s) \<in> (set (symbolFeedForwardMap st))\<^sup>*"
    with marked [of seed] have "seed \<in> set (marked_symbols inst st)" by blast
    with h tbl show "m_is_uniform_by_symbol st s = Some False" by blast
  qed
qed

theorem is_uniform_false_iff_reached_witness:
  "\<exists>st. discover_layer 4 layer_param (discovery_new Map.empty (length (ops layer_param)))
          = Some (Inr st) \<and>
        m_is_uniform_by_symbol st sym_x = Some False \<and>
        (\<exists>seed. symtype seed = SymTypeParam \<and> (seed, sym_x) \<in> (set (symbolFeedForwardMap st))\<^sup>*)"
proof -
  from layer_param_run obtain st where
    run: "discover_layer 4 layer_param (discovery_new Map.empty (length (ops layer_param)))
            = Some (Inr st)"
    and E: "symbolFeedForwardMap st = [(sym_p, sym_x)]"
    by (auto split: option.splits sum.splits)
  have t: "symtype sym_p = SymTypeParam" by (simp add: sym_p_def mk_symbol_def)
  have path: "(sym_p, sym_x) \<in> (set (symbolFeedForwardMap st))\<^sup>*"
    by (rule r_into_rtrancl) (simp add: E)
  have feeds: "sym_p \<in> fst ` set (symbolFeedForwardMap st)" by (simp add: E)
  from is_uniform_false_iff_reached [OF run, of sym_x] t path feeds
  have "m_is_uniform_by_symbol st sym_x = Some False" by blast
  with run t path show ?thesis by blast
qed

text \<open>
  C3, as the spec has it: a parameter is a varying seed if and only if it is connected, and
  a parameter that is not connected stays uniform unless a seed reaches it. In
  \<^verbatim>\<open>y = p + k;\<close> the parameter \<open>p\<close> is not connected, no edge ends in it and no
  \<^verbatim>\<open>getattribute\<close> writes it; it is handed to \<^verbatim>\<open>recursivelyMarkNonUniform\<close> and
  ends varying.
\<close>

theorem unconnected_param_is_seed_counterexample:
  "\<not> connected sym_p \<and> symtype sym_p = SymTypeParam \<and>
   (case discover_layer 3 layer_add (discovery_new Map.empty (length (ops layer_add))) of
      Some (Inr st) \<Rightarrow>
        sym_p \<in> set (marked_symbols layer_add st) \<and>
        m_is_uniform_by_symbol st sym_p = Some False \<and>
        sym_p \<notin> snd ` set (symbolFeedForwardMap st) \<and>
        sym_p \<notin> set (symbolsWrittenToByGetAttribute st)
    | _ \<Rightarrow> False)"
  by code_simp

text \<open>
  C3, amended: a parameter (symbol class \<open>Param\<close>) that is the reader of a feed-forward
  edge is treated as a varying seed and ends varying in the table, whether it is connected
  or not.
\<close>

theorem param_feeding_is_varying:
  assumes run: "discover_layer fuel inst (discovery_new Map.empty (length (ops inst))) = Some (Inr st)"
    and param: "symtype s = SymTypeParam"
    and feeds: "s \<in> fst ` set (symbolFeedForwardMap st)"
  shows "s \<in> set (marked_symbols inst st) \<and> m_is_uniform_by_symbol st s = Some False"
proof -
  from param feeds have m: "s \<in> set (marked_symbols inst st)"
    by (simp add: marked_symbols_def varying_feeds_iff feed_is_uniform_iff)
  moreover have "(s, s) \<in> (set (symbolFeedForwardMap st))\<^sup>*" by simp
  ultimately show ?thesis using discover_layer_table [OF run, of s] by blast
qed

theorem param_feeding_is_varying_witness:
  "\<exists>st. discover_layer 4 layer_param (discovery_new Map.empty (length (ops layer_param)))
          = Some (Inr st) \<and>
        sym_p \<in> set (marked_symbols layer_param st) \<and>
        m_is_uniform_by_symbol st sym_p = Some False"
proof -
  from layer_param_run obtain st where
    run: "discover_layer 4 layer_param (discovery_new Map.empty (length (ops layer_param)))
            = Some (Inr st)"
    and E: "symbolFeedForwardMap st = [(sym_p, sym_x)]"
    by (auto split: option.splits sum.splits)
  have t: "symtype sym_p = SymTypeParam" by (simp add: sym_p_def mk_symbol_def)
  have feeds: "sym_p \<in> fst ` set (symbolFeedForwardMap st)" by (simp add: E)
  from param_feeding_is_varying [OF run t feeds] run show ?thesis by blast
qed

text \<open>
  The globals that the seeding loop looks at are the readers of the feed-forward edges. For
  such a global the loop computes \<open>is_uniform\<close> from the name alone; with a name that is
  not a uniform one the global is marked and ends varying in the table, with a uniform name
  it ends uniform unless a marked symbol reaches it.
\<close>

lemma global_seeded_uniform_iff_named:
  assumes "symtype s = SymTypeGlobal" and "s \<in> fst ` set feedForward"
  shows "feed_is_uniform s =
           (name s \<in> {''renderstate'', ''tracedata'', ''objdata'', ''shadingcontext'',
              ''renderer'', ''Ci'', ''raytype'', ''pad0'', ''pad1'', ''pad2''}) \<and>
         (s \<in> set (varying_feeds feedForward) \<longleftrightarrow>
            name s \<notin> {''renderstate'', ''tracedata'', ''objdata'', ''shadingcontext'',
              ''renderer'', ''Ci'', ''raytype'', ''pad0'', ''pad1'', ''pad2''})"
proof -
  have "feed_is_uniform s = IsShaderGlobalUniformByName (name s)"
    using assms(1) by (simp add: feed_is_uniform_def)
  moreover have "s \<in> set (varying_feeds feedForward) \<longleftrightarrow> \<not> feed_is_uniform s"
    using assms(2) by (simp add: varying_feeds_def)
  ultimately show ?thesis by (simp only: IsShaderGlobalUniformByName_iff)
qed

lemma discover_layer_known:
  assumes run: "discover_layer fuel inst (discovery_new Map.empty n) = Some (Inr st)"
    and reader: "s \<in> fst ` set (symbolFeedForwardMap st)"
  shows "m_is_uniform_by_symbol st s \<noteq> None"
proof -
  from discover_layer_walked [OF run] obtain sw tbl where
    ext: "extends (discovery_new Map.empty n) sw"
    and mark: "for_each (recursivelyMarkNonUniform fuel (symbolFeedForwardMap sw))
                 (marked_symbols inst sw) (m_is_uniform_by_symbol sw) = Some tbl"
    and st: "st = sw\<lparr>m_is_uniform_by_symbol := tbl\<rparr>"
    by blast
  from ext discovered_sound_new have "discovered_sound sw" by (simp add: extends_def)
  with reader st have "m_is_uniform_by_symbol sw s \<noteq> None"
    by (auto simp: discovered_sound_def)
  with marking_unchanged [OF mark, of s] show ?thesis by (auto simp: st)
qed

lemma global_reader_table:
  assumes run: "discover_layer fuel inst (discovery_new Map.empty (length (ops inst)))
                  = Some (Inr st)"
    and global: "symtype s = SymTypeGlobal"
    and reader: "s \<in> fst ` set (symbolFeedForwardMap st)"
  shows "(s \<in> set (varying_feeds (symbolFeedForwardMap st)) \<longleftrightarrow>
            name s \<notin> {''renderstate'', ''tracedata'', ''objdata'', ''shadingcontext'',
              ''renderer'', ''Ci'', ''raytype'', ''pad0'', ''pad1'', ''pad2''}) \<and>
         (name s \<notin> {''renderstate'', ''tracedata'', ''objdata'', ''shadingcontext'',
              ''renderer'', ''Ci'', ''raytype'', ''pad0'', ''pad1'', ''pad2''} \<longrightarrow>
            m_is_uniform_by_symbol st s = Some False) \<and>
         (name s \<in> {''renderstate'', ''tracedata'', ''objdata'', ''shadingcontext'',
              ''renderer'', ''Ci'', ''raytype'', ''pad0'', ''pad1'', ''pad2''} \<longrightarrow>
            (m_is_uniform_by_symbol st s = Some True \<longleftrightarrow>
               \<not> (\<exists>seed \<in> set (marked_symbols inst st).
                      (seed, s) \<in> (set (symbolFeedForwardMap st))\<^sup>*)))"
proof -
  let ?U = "{''renderstate'', ''tracedata'', ''objdata'', ''shadingcontext'',
              ''renderer'', ''Ci'', ''raytype'', ''pad0'', ''pad1'', ''pad2''}"
  note tbl = discover_layer_table [OF run, of s]
  from global_seeded_uniform_iff_named [OF global reader]
  have seeded: "s \<in> set (varying_feeds (symbolFeedForwardMap st)) \<longleftrightarrow> name s \<notin> ?U"
    by blast
  have varying: "m_is_uniform_by_symbol st s = Some False" if "name s \<notin> ?U"
  proof -
    from that seeded have "s \<in> set (marked_symbols inst st)" by (simp add: marked_symbols_def)
    moreover have "(s, s) \<in> (set (symbolFeedForwardMap st))\<^sup>*" by simp
    ultimately show ?thesis using tbl by blast
  qed
  from discover_layer_known [OF run reader] obtain b where b: "m_is_uniform_by_symbol st s = Some b"
    by auto
  have "m_is_uniform_by_symbol st s = Some True \<longleftrightarrow>
          \<not> (\<exists>seed \<in> set (marked_symbols inst st).
                 (seed, s) \<in> (set (symbolFeedForwardMap st))\<^sup>*)"
    using tbl b by (cases b) auto
  with seeded varying show ?thesis by blast
qed

lemma layer_read_globals_run:
  "case discover_layer 4 layer_read_globals
          (discovery_new Map.empty (length (ops layer_read_globals))) of
     Some (Inr st) \<Rightarrow>
       symbolFeedForwardMap st = [(sym_P, sym_x), (sym_raytype, sym_y)] \<and>
       m_is_uniform_by_symbol st sym_P = Some False \<and>
       m_is_uniform_by_symbol st sym_x = Some False \<and>
       m_is_uniform_by_symbol st sym_raytype = Some True \<and>
       m_is_uniform_by_symbol st sym_y = Some True
   | _ \<Rightarrow> False"
  by code_simp

lemma global_reader_table_example:
  "\<exists>st. discover_layer 4 layer_read_globals
          (discovery_new Map.empty (length (ops layer_read_globals))) = Some (Inr st) \<and>
        sym_P \<in> set (varying_feeds (symbolFeedForwardMap st)) \<and>
        m_is_uniform_by_symbol st sym_P = Some False \<and>
        sym_raytype \<notin> set (varying_feeds (symbolFeedForwardMap st)) \<and>
        m_is_uniform_by_symbol st sym_raytype = Some True"
proof -
  from layer_read_globals_run obtain st where
    run: "discover_layer 4 layer_read_globals
            (discovery_new Map.empty (length (ops layer_read_globals))) = Some (Inr st)"
    and E: "symbolFeedForwardMap st = [(sym_P, sym_x), (sym_raytype, sym_y)]"
    and r: "m_is_uniform_by_symbol st sym_raytype = Some True"
    by (auto split: option.splits sum.splits)
  have g: "symtype sym_P = SymTypeGlobal" "symtype sym_raytype = SymTypeGlobal"
    and n: "name sym_P = ''P''" "name sym_raytype = ''raytype''"
    by (simp_all add: sym_P_def sym_raytype_def mk_symbol_def)
  have e: "sym_P \<in> fst ` set (symbolFeedForwardMap st)"
    "sym_raytype \<in> fst ` set (symbolFeedForwardMap st)"
    by (simp_all add: E)
  from global_reader_table [OF run g(1) e(1)] global_reader_table [OF run g(2) e(2)] r run
  show ?thesis unfolding n by auto
qed

text \<open>
  C6. The claim: every global that takes part in the feed-forward graph is seeded uniform
  if and only if its name is one of \<open>renderstate\<close>, \<open>tracedata\<close>, \<open>objdata\<close>,
  \<open>shadingcontext\<close>, \<open>renderer\<close>, \<open>Ci\<close>, \<open>raytype\<close>, \<open>pad0\<close>, \<open>pad1\<close>,
  \<open>pad2\<close>, and with any other name it is seeded varying. The seeding loop runs over the
  readers of the edges only. In \<^verbatim>\<open>P = x; y = k;\<close> the global \<open>P\<close> is in the graph
  as the writer of the edge \<open>x \<rightarrow> P\<close>; its name is not a uniform one, yet it is never
  handed to \<^verbatim>\<open>recursivelyMarkNonUniform\<close> and ends uniform in the table.
\<close>

theorem written_global_stays_uniform:
  "symtype sym_P = SymTypeGlobal \<and> name sym_P = ''P'' \<and>
   \<not> IsShaderGlobalUniformByName (name sym_P) \<and>
   (case discover_layer 4 layer_write_global
           (discovery_new Map.empty (length (ops layer_write_global))) of
      Some (Inr st) \<Rightarrow>
        symbolFeedForwardMap st = [(sym_x, sym_P), (sym_k, sym_y)] \<and>
        sym_P \<notin> set (marked_symbols layer_write_global st) \<and>
        m_is_uniform_by_symbol st sym_P = Some True
    | _ \<Rightarrow> False)"
  by code_simp

subsection \<open>Repeating the analysis, and layers without ops\<close>

text \<open>
  C5, as the spec has it: repeating the analysis of the same layer succeeds and gives the
  same tables. The analysis asserts first that the masking vector of the layer is empty;
  after the analysis of the one-op layer \<^verbatim>\<open>x = k;\<close> it has one entry, and the second
  run stops at that assertion.
\<close>

theorem rerun_fails_counterexample:
  "case discoverVaryingAndMaskingOfLayer 3 layer_assign backend_new of
     Some (Inr be) \<Rightarrow>
       failure_of (discoverVaryingAndMaskingOfLayer 3 layer_assign be)
         = Some AssertMaskingVectorEmpty
   | _ \<Rightarrow> False"
  by code_simp

text \<open>
  C5, amended: the analysis is a function of the layer and of the tables it starts from;
  a second run for the same layer on the backend that holds the tables of a first run that
  succeeded does not succeed when the layer has at least one op: it stops at the assertion
  that the masking vector of the layer is empty, whatever fuel it is given.
\<close>

theorem rerun_stops_at_assertion:
  assumes first: "discoverVaryingAndMaskingOfLayer fuel inst be = Some (Inr be')"
    and nonempty: "ops inst \<noteq> []"
  shows "discoverVaryingAndMaskingOfLayer fuel' inst be' = Some (Inl AssertMaskingVectorEmpty)"
proof -
  let ?tbl = "requires_masking_by_layer_and_op_index"
  from first have len: "layer inst < length (?tbl be)"
    by (auto simp: discoverVaryingAndMaskingOfLayer_def split: if_splits)
  from first obtain st where
    run: "discover_layer fuel inst (discovery_new (is_uniform_by_symbol be) (length (ops inst)))
            = Some (Inr st)"
    and be': "be' = \<lparr>is_uniform_by_symbol = m_is_uniform_by_symbol st,
                     requires_masking_by_layer_and_op_index =
                       (?tbl be)[layer inst := requires_masking st]\<rparr>"
    by (auto simp: discoverVaryingAndMaskingOfLayer_def bindR_Some_Inr split: if_splits)
  from discover_layer_masking_length [OF run]
  have "length (requires_masking st) = length (ops inst)" by (simp add: discovery_new_def)
  with nonempty have "requires_masking st \<noteq> []" by auto
  with len be' show ?thesis by (simp add: discoverVaryingAndMaskingOfLayer_def)
qed

lemma layer_assign_run:
  "case discoverVaryingAndMaskingOfLayer 3 layer_assign backend_new of
     Some (Inr be) \<Rightarrow> True | _ \<Rightarrow> False"
  by code_simp

theorem rerun_stops_at_assertion_witness:
  "\<exists>be. discoverVaryingAndMaskingOfLayer 3 layer_assign backend_new = Some (Inr be) \<and>
        discoverVaryingAndMaskingOfLayer 3 layer_assign be = Some (Inl AssertMaskingVectorEmpty)"
proof -
  from layer_assign_run obtain be where
    run: "discoverVaryingAndMaskingOfLayer 3 layer_assign backend_new = Some (Inr be)"
    by (auto split: option.splits sum.splits)
  have "ops layer_assign \<noteq> []" by (simp add: layer_assign_def mk_inst_def)
  from rerun_stops_at_assertion [OF run this, of 3] run show ?thesis by blast
qed

lemma for_eachR_unchanged:
  "\<forall>x \<in> set xs. f x st = Some (Inr st) \<Longrightarrow> for_eachR f xs st = Some (Inr st)"
  by (induction xs) (simp_all add: bindR_def)

lemma for_eachE_unchanged:
  "\<forall>x \<in> set xs. f x st = Inr st \<Longrightarrow> for_eachE f xs st = Inr st"
  by (induction xs) (simp_all add: bindE_def)

lemma for_each_mark_no_uniform:
  "\<forall>x. t x \<noteq> Some True \<Longrightarrow>
   for_each (recursivelyMarkNonUniform (Suc n) E) xs t =
     Some (\<lambda>x. if x \<in> set xs then Some False else t x)"
proof (induction xs arbitrary: t)
  case Nil
  show ?case by simp
next
  case (Cons s xs)
  let ?f = "recursivelyMarkNonUniform (Suc n) E"
  have step: "?f s t = Some (t(s \<mapsto> False))"
    using Cons.prems [rule_format, of s] by (cases "t s") auto
  have no_true: "\<forall>x. (t(s \<mapsto> False)) x \<noteq> Some True" using Cons.prems by simp
  have "for_each ?f (s # xs) t = for_each ?f xs (t(s \<mapsto> False))"
    by (simp only: for_each.simps step option.case)
  also have "\<dots> = Some (\<lambda>x. if x \<in> set xs then Some False else (t(s \<mapsto> False)) x)"
    by (rule Cons.IH [OF no_true])
  also have "(\<lambda>x. if x \<in> set xs then Some False else (t(s \<mapsto> False)) x) =
             (\<lambda>x. if x \<in> set (s # xs) then Some False else t x)"
    by (auto simp: fun_eq_iff)
  finally show ?case .
qed

lemma params_subset: "set (params inst) \<subseteq> set (symbols inst)"
  by (auto simp: params_def dest: in_set_takeD in_set_dropD)

lemma discover_no_ops:
  assumes no_ops: "ops inst = []" and fuel: "0 < fuel"
    and len: "layer inst < length (requires_masking_by_layer_and_op_index be)"
    and empty: "requires_masking_by_layer_and_op_index be ! layer inst = []"
    and tbl: "is_uniform_by_symbol be = Map.empty"
    and main: "maincodeend inst \<le> maincodebegin inst"
    and init: "\<forall>s \<in> set (symbols inst). initend s \<le> initbegin s"
  shows "discoverVaryingAndMaskingOfLayer fuel inst be =
           Some (Inr \<lparr>is_uniform_by_symbol =
                        (\<lambda>x. if x \<in> set (output_params inst) then Some False else None),
                      requires_masking_by_layer_and_op_index =
                        (requires_masking_by_layer_and_op_index be)[layer inst := []]\<rparr>)"
proof -
  from fuel obtain n where n: "fuel = Suc n" by (cases fuel) auto
  let ?st0 = "discovery_new Map.empty 0"
  let ?st1 = "snd (fresh_maskId ?st0)"
  let ?mainMask = "fst (fresh_maskId ?st0)"
  have walk: "discoverSymbolsBetween fuel inst b e 0 0 ?mainMask ?mainMask ?st1 = Some (Inr ?st1)"
    if "e \<le> b" for b e
    using that by (simp add: n)
  have w1: "for_eachR (walk_init_ops fuel inst ?mainMask)
              (filter (symbol_init_ops_walked inst) (symbols inst)) ?st1 = Some (Inr ?st1)"
    by (rule for_eachR_unchanged) (use init walk in \<open>auto simp: walk_init_ops_def\<close>)
  have w2: "for_eachR (walk_init_ops fuel inst ?mainMask)
              (filter (param_init_ops_walked inst) (params inst)) ?st1 = Some (Inr ?st1)"
  proof (rule for_eachR_unchanged, rule ballI)
    fix x assume "x \<in> set (filter (param_init_ops_walked inst) (params inst))"
    with params_subset [of inst] have "x \<in> set (symbols inst)" by auto
    with init have "initend x \<le> initbegin x" by blast
    then show "walk_init_ops fuel inst ?mainMask x ?st1 = Some (Inr ?st1)"
      unfolding walk_init_ops_def by (rule walk)
  qed
  have w3: "discoverSymbolsBetween fuel inst (maincodebegin inst) (maincodeend inst) 0 0
              ?mainMask ?mainMask ?st1 = Some (Inr ?st1)"
    using main by (rule walk)
  have w4: "for_eachE (ensure_output_param ?mainMask) (params inst) ?st1 = Inr ?st1"
    by (rule for_eachE_unchanged)
       (simp add: ensure_output_param_def ensureWritesAtLowerDepthAreMasked_def
          fresh_maskId_def discovery_new_def)
  have tb: "m_is_uniform_by_symbol ?st1 = Map.empty" and ff: "symbolFeedForwardMap ?st1 = []"
    by (simp_all add: fresh_maskId_def discovery_new_def)
  have marked: "marked_symbols inst ?st1 = output_params inst"
    by (simp add: marked_symbols_def varying_feeds_def fresh_maskId_def discovery_new_def)
  have "for_each (recursivelyMarkNonUniform fuel []) (output_params inst) Map.empty
        = Some (\<lambda>x. if x \<in> set (output_params inst) then Some False else None)"
    unfolding n by (rule for_each_mark_no_uniform) simp
  then have w5: "mark_varying fuel inst ?st1 =
      Some (Inr (?st1\<lparr>m_is_uniform_by_symbol :=
         (\<lambda>x. if x \<in> set (output_params inst) then Some False else None)\<rparr>))"
    unfolding mark_varying_def marked tb ff by simp
  have "discover_layer fuel inst ?st0 =
      Some (Inr (?st1\<lparr>m_is_uniform_by_symbol :=
         (\<lambda>x. if x \<in> set (output_params inst) then Some False else None)\<rparr>))"
    by (simp add: discover_layer_def case_prod_beta w1 w2 w3 w4 w5 bindR_def)
  with no_ops len empty tbl show ?thesis
    by (simp add: discoverVaryingAndMaskingOfLayer_def bindR_def fresh_maskId_def
        discovery_new_def)
qed

text \<open>
  C9, as the spec has it: a layer without ops produces empty tables, whatever parameters it
  declares. The marking of the output parameters enters each of them in the table: the layer
  without ops that declares the output parameter \<open>out\<close> ends with \<open>out\<close> varying.
\<close>

theorem no_ops_table_not_empty_counterexample:
  "case discoverVaryingAndMaskingOfLayer 1 layer_only_output backend_new of
     Some (Inr be) \<Rightarrow> is_uniform_by_symbol be sym_out = Some False
   | _ \<Rightarrow> False"
  by code_simp

text \<open>
  C9, amended: for a layer without ops (whose main code and init-op ranges are then empty),
  analysed with a masking vector that is empty and a table without entries, the analysis
  returns; the masking vector of the layer stays empty, and the table holds exactly the
  output parameters among the layer's parameters, each as varying. It is empty when the
  layer declares no output parameter.
\<close>

theorem no_ops_tables:
  assumes "ops inst = []" and "0 < fuel"
    and "layer inst < length (requires_masking_by_layer_and_op_index be)"
    and "requires_masking_by_layer_and_op_index be ! layer inst = []"
    and "is_uniform_by_symbol be = Map.empty"
    and "maincodeend inst \<le> maincodebegin inst"
    and "\<forall>s \<in> set (symbols inst). initend s \<le> initbegin s"
  shows "\<exists>be'. discoverVaryingAndMaskingOfLayer fuel inst be = Some (Inr be') \<and>
           requires_masking_by_layer_and_op_index be' ! layer inst = [] \<and>
           (\<forall>s. is_uniform_by_symbol be' s =
                  (if s \<in> set (output_params inst) then Some False else None))"
  using discover_no_ops [OF assms] assms(3) by simp

theorem no_ops_tables_witness:
  "\<exists>be. discoverVaryingAndMaskingOfLayer 1 layer_only_output backend_new = Some (Inr be) \<and>
        requires_masking_by_layer_and_op_index be ! 0 = [] \<and>
        is_uniform_by_symbol be sym_out = Some False \<and>
        is_uniform_by_symbol be sym_x = None"
proof -
  have o: "output_params layer_only_output = [sym_out]"
    by (simp add: output_params_def params_def layer_only_output_def mk_inst_def sym_out_def
        mk_symbol_def)
  have d: "sym_x \<noteq> sym_out" by (simp add: sym_x_def sym_out_def mk_symbol_def)
  have "\<exists>be'. discoverVaryingAndMaskingOfLayer 1 layer_only_output backend_new = Some (Inr be') \<and>
           requires_masking_by_layer_and_op_index be' ! layer layer_only_output = [] \<and>
           (\<forall>s. is_uniform_by_symbol be' s =
                  (if s \<in> set (output_params layer_only_output) then Some False else None))"
    by (rule no_ops_tables)
       (simp_all add: layer_only_output_def mk_inst_def backend_new_def sym_out_def mk_symbol_def)
  moreover have "layer layer_only_output = 0" by (simp add: layer_only_output_def mk_inst_def)
  ultimately show ?thesis using d by (auto simp: o)
qed

subsection \<open>The query\<close>

text \<open>
  C7, as the spec has it: the query never fails for a symbol that is not in the table. The
  query asserts first that the table is not empty. The analysis of a layer without ops and
  without output parameters leaves the table empty, and the query on the local \<open>x\<close> stops
  at the assertion.
\<close>

theorem isSymbolUniform_empty_table_counterexample:
  "case discoverVaryingAndMaskingOfLayer 1 layer_no_ops backend_new of
     Some (Inr be) \<Rightarrow> is_uniform_by_symbol be sym_x = None \<and>
                      isSymbolUniform be sym_x = Inl AssertIsUniformNotEmpty
   | _ \<Rightarrow> False"
proof -
  have o: "output_params layer_no_ops = []"
    by (simp add: output_params_def params_def layer_no_ops_def mk_inst_def)
  have "discoverVaryingAndMaskingOfLayer 1 layer_no_ops backend_new =
          Some (Inr \<lparr>is_uniform_by_symbol =
                       (\<lambda>x. if x \<in> set (output_params layer_no_ops) then Some False else None),
                     requires_masking_by_layer_and_op_index =
                       (requires_masking_by_layer_and_op_index backend_new)
                         [layer layer_no_ops := []]\<rparr>)"
    by (rule discover_no_ops)
       (simp_all add: layer_no_ops_def mk_inst_def backend_new_def sym_x_def mk_symbol_def)
  then show ?thesis by (simp add: o isSymbolUniform_def)
qed

text \<open>
  C7, amended: for a symbol that is not in the table, the query returns \<open>true\<close>, except for
  an \<open>OutputParam\<close>, for which it returns \<open>false\<close>, when the table has at least one
  entry; when the table has no entry at all the query stops at its assertion.
\<close>

theorem isSymbolUniform_absent:
  assumes "is_uniform_by_symbol be s = None"
  shows "((\<exists>x. is_uniform_by_symbol be x \<noteq> None) \<longrightarrow>
            isSymbolUniform be s = Inr (symtype s \<noteq> SymTypeOutputParam)) \<and>
         ((\<forall>x. is_uniform_by_symbol be x = None) \<longrightarrow>
            isSymbolUniform be s = Inl AssertIsUniformNotEmpty)"
  using assms by (auto simp: isSymbolUniform_def fun_eq_iff)

theorem isSymbolUniform_absent_witness:
  "isSymbolUniform backend_x_uniform sym_out = Inr False \<and>
   isSymbolUniform backend_x_uniform sym_y = Inr True \<and>
   isSymbolUniform backend_new sym_y = Inl AssertIsUniformNotEmpty"
proof -
  have d: "sym_out \<noteq> sym_x" "sym_y \<noteq> sym_x"
    by (simp_all add: sym_out_def sym_y_def sym_x_def mk_symbol_def)
  then have a: "is_uniform_by_symbol backend_x_uniform sym_out = None"
    "is_uniform_by_symbol backend_x_uniform sym_y = None"
    by (simp_all add: backend_x_uniform_def)
  have b: "is_uniform_by_symbol backend_new sym_y = None" by (simp add: backend_new_def)
  have ne: "\<exists>x. is_uniform_by_symbol backend_x_uniform x \<noteq> None"
    by (rule exI [of _ sym_x]) (simp add: backend_x_uniform_def)
  have em: "\<forall>x. is_uniform_by_symbol backend_new x = None" by (simp add: backend_new_def)
  have t: "symtype sym_out = SymTypeOutputParam" "symtype sym_y = SymTypeLocal"
    by (simp_all add: sym_out_def sym_y_def mk_symbol_def)
  from isSymbolUniform_absent [OF a(1)] isSymbolUniform_absent [OF a(2)]
       isSymbolUniform_absent [OF b] ne em t
  show ?thesis by simp
qed

subsection \<open>Two layers on which the code and the claims part\<close>

text \<open>
  C10. The claim: whenever the call finds a symbol last written deeper than the current
  depth and under another mask id, its list of pending writes is not empty, so that the
  assertion there cannot fail, in particular for a symbol read at successively shallower
  depths after one deeper write. In the layer
  \<^verbatim>\<open>if (c) { if (d) { x = k; } y = x; } z = x;\<close> the read of \<open>x\<close> at depth 1 marks the
  write at depth 2 and empties the list, but leaves \<open>last_maskId\<close> as it was; the read at
  depth 0 then finds \<open>last_depth = 1 > 0\<close>, another mask id and no pending write: the
  analysis stops at the assertion.
\<close>

theorem nested_ifs_assertion_fails:
  "failure_of (discoverVaryingAndMaskingOfLayer 8 layer_nested_ifs backend_new)
     = Some AssertPotentiallyUnmaskedOpsNotEmpty"
  by code_simp

text \<open>
  When the symbol of the innermost loop condition is on the stack of conditions once, the
  \<^verbatim>\<open>break\<close> adds an edge to it from exactly the conditions above it, and records
  itself as a pending write of the loop condition.
\<close>

lemma discover_break_once:
  assumes loop: "loopControlFlowSymbolStack st \<noteq> []"
    and stack: "symbolsCurrentBlockDependsOn st =
                  outer @ last (loopControlFlowSymbolStack st) # inner"
    and once: "last (loopControlFlowSymbolStack st) \<notin> set outer"
  shows "\<exists>st' info.
           discover_break opIndex writeBlockDepth writeMaskId st = Inr st' \<and>
           symbolFeedForwardMap st' = symbolFeedForwardMap st @
             map (\<lambda>c. (c, last (loopControlFlowSymbolStack st))) inner \<and>
           usageInfoBySymbol st' (last (loopControlFlowSymbolStack st)) = Some info \<and>
           potentially_unmasked_ops info =
             potentially_unmasked_ops (usage_of st (last (loopControlFlowSymbolStack st)))
               @ [(writeBlockDepth, opIndex)]"
proof -
  let ?c = "last (loopControlFlowSymbolStack st)"
  from once have "dropWhile (\<lambda>x. x \<noteq> ?c) (outer @ ?c # inner) = ?c # inner"
    by (auto simp: dropWhile_append3)
  with stack have "conditions_after ?c (symbolsCurrentBlockDependsOn st) = inner"
    by (simp add: conditions_after_def)
  moreover from stack have "?c \<in> set (symbolsCurrentBlockDependsOn st)" by simp
  ultimately show ?thesis using loop
    by (simp add: discover_break_def Let_def)
qed

text \<open>
  C8. The claim: a \<^verbatim>\<open>break\<close> adds edges to the loop condition from the conditions
  strictly above the innermost loop condition on the stack, and from no condition at or
  below it. The source looks the loop condition up with \<^verbatim>\<open>std::find\<close> from the bottom
  of the stack. In \<^verbatim>\<open>c = k; if (c) { if (p) { while (c) { break; } } }\<close> the stack at the
  \<^verbatim>\<open>break\<close> is \<open>[c, p, c]\<close>: the search stops at the entry of the outer \<open>if\<close>, and
  the \<^verbatim>\<open>break\<close> adds the edges \<open>p \<rightarrow> c\<close> and \<open>c \<rightarrow> c\<close>, both from conditions at or
  below the loop's own entry. \<open>p\<close> is a parameter, so \<open>c\<close> ends varying.
\<close>

theorem break_adds_edge_from_outer_condition:
  "case discover_layer 8 layer_break (discovery_new Map.empty 5) of
     Some (Inr st) \<Rightarrow>
       symbolFeedForwardMap st = [(sym_k, sym_c), (sym_p, sym_c), (sym_c, sym_c)] \<and>
       m_is_uniform_by_symbol st sym_c = Some False
   | _ \<Rightarrow> False"
  by code_simp

end
